theory Spec2Isabelle
  imports Main "HOL-Library.AList" "HOL-Library.Multiset"
begin

section \<open>Mythic+ group maker: roster, solver, draft and lock\<close>

text \<open>
  The source file \<^verbatim>\<open>index.mjs\<close> holds two variants of the same bot, one after the other.
  The second variant (from line 686 on) is the first one plus a per-role class selection:
  every signup and every player reference carries an additional \<^verbatim>\<open>classes\<close> object, the
  swap command re-reads the classes from the signups, and a select-menu handler stores them.
  The solver \<^verbatim>\<open>rollGroups\<close>, \<^verbatim>\<open>draftFromResult\<close>, \<^verbatim>\<open>findPlayerInDraft\<close> and
  \<^verbatim>\<open>roleAllowedForSlot\<close> are the same text in both variants up to that field. The embedding
  follows the second variant; where the first variant differs in more than the field
  (the button handler) both are given.

  Conventions of the embedding.
  \<^item> A JavaScript object used as a dictionary is an association list in insertion order
    (\<^verbatim>\<open>Object.entries\<close> enumerates string keys in that order); assignment to a key is
    \<^const>\<open>AList.update\<close> (in place when the key exists, appended otherwise) and
    \<^verbatim>\<open>delete\<close> is \<^const>\<open>AList.delete\<close>. Keys of an object are unique; theorems whose
    statement depends on that say so as a hypothesis.
  \<^item> A JavaScript \<^verbatim>\<open>Set\<close> is a duplicate-free list in insertion order.
  \<^item> The state file is read at the start of every interaction and written by
    \<^verbatim>\<open>saveState\<close>; a handler is a function from the stored session to a reply and the
    session stored afterwards. A path that returns before \<^verbatim>\<open>saveState\<close> stores nothing,
    so its stored session is the one it was given, whatever it changed in memory.
  \<^item> \<^verbatim>\<open>Date.now()\<close> is a parameter \<open>now\<close>; timestamps are integers (milliseconds).
  \<^item> \<^verbatim>\<open>Math.random()\<close> is a tape of natural numbers: the expression
    \<^verbatim>\<open>Math.floor(Math.random() * k)\<close> reads the next number modulo \<open>k\<close>, so every index
    below \<open>k\<close> can come out and nothing else can. An exhausted tape yields 0.
\<close>

subsection \<open>JavaScript sets and truthiness\<close>

definition setAdd :: "'a \<Rightarrow> 'a list \<Rightarrow> 'a list" where
  "setAdd x s = (if x \<in> set s then s else s @ [x])"

definition setDelete :: "'a \<Rightarrow> 'a list \<Rightarrow> 'a list" where
  "setDelete x s = removeAll x s"

definition newSet :: "'a list \<Rightarrow> 'a list" where
  "newSet xs = foldl (\<lambda>s x. setAdd x s) [] xs"

text \<open>A number or \<^verbatim>\<open>null\<close> used as a condition: \<^verbatim>\<open>null\<close> and \<open>0\<close> are falsy.\<close>

definition truthy :: "int option \<Rightarrow> bool" where
  "truthy v = (case v of None \<Rightarrow> False | Some n \<Rightarrow> n \<noteq> 0)"

subsection \<open>Data model\<close>

type_synonym classes = "(string \<times> string option) list"

record signup =
  roles :: "string list"
  displayName :: string
  classes :: "classes option"

type_synonym signups = "(string \<times> signup) list"

record player =
  player_id :: string
  name :: string
  player_roles :: "string list"
  player_classes :: classes

text \<open>A group as the solver builds it, and a group as the draft stores it.\<close>

record solver_group =
  tank :: "player option"
  heal :: "player option"
  dps :: "player list"

record draft_group =
  slot_tank :: "player option"
  slot_heal :: "player option"
  dps1 :: "player option"
  dps2 :: "player option"
  dps3 :: "player option"

record draft =
  draft_createdAt :: int
  draft_groups :: "draft_group list"
  draft_bench :: "player option list"

record session =
  session_id :: string
  title :: string
  description :: string
  lockAt :: "int option"
  signups :: signups
  createdAt :: int
  lastDraft :: "draft option"

datatype reply =
    SignupsLocked
  | UpdatedRoles "string list"
  | RemovedFromSignups
  | PickRoleFirst string
  | ClassCannotPerform
  | UpdatedClass string "string option"
  | NoDraftYet
  | NotInDraft
  | RoleMismatch
  | Swapped
  | PreviewDraft
  | NoReply

subsection \<open>Lock guard and roster handlers\<close>

text \<open>\<^verbatim>\<open>session.lockAt && Date.now() >= session.lockAt\<close> (lines 626, 1542, 1603).\<close>

definition isLocked :: "int \<Rightarrow> session \<Rightarrow> bool" where
  "isLocked now s = (truthy (lockAt s) \<and> (case lockAt s of None \<Rightarrow> False | Some t \<Rightarrow> now \<ge> t))"

text \<open>\<^verbatim>\<open>session.signups[userId] ||= dflt\<close>: the entry afterwards, and the dictionary.\<close>

definition ensureEntry :: "signups \<Rightarrow> string \<Rightarrow> signup \<Rightarrow> signup \<times> signups" where
  "ensureEntry su userId dflt =
     (case map_of su userId of
        Some info \<Rightarrow> (info, su)
      | None \<Rightarrow> (dflt, AList.update userId dflt su))"

definition nullClasses :: classes where
  "nullClasses = [(''TANK'', None), (''HEAL'', None), (''DPS'', None)]"

text \<open>\<^verbatim>\<open>info.classes ||= { TANK: null, HEAL: null, DPS: null }\<close>.\<close>

definition ensureClasses :: "signup \<Rightarrow> signup" where
  "ensureClasses info =
     (case classes info of Some c \<Rightarrow> info | None \<Rightarrow> info\<lparr>classes := Some nullClasses\<rparr>)"

text \<open>The toggle block (lines 640-648 and 1618-1626): the roles written back.\<close>

definition toggledRoles :: "string \<Rightarrow> string list \<Rightarrow> string list" where
  "toggledRoles role rs =
     (let s = newSet rs in if role \<in> set s then setDelete role s else setAdd role s)"

text \<open>Button handler of the first variant (lines 615-681).\<close>

definition buttonHandler1 ::
  "int \<Rightarrow> session \<Rightarrow> string \<Rightarrow> string \<Rightarrow> string \<Rightarrow> string \<Rightarrow> reply \<times> session" where
  "buttonHandler1 now s userId dname action payload =
     (if isLocked now s then (SignupsLocked, s)
      else
        let (info, su) = ensureEntry (signups s) userId
                           \<lparr>roles = [], displayName = dname, classes = None\<rparr>
        in if action = ''toggle'' then
             let rs = toggledRoles payload (roles info);
                 info' = info\<lparr>roles := rs, displayName := dname\<rparr>
             in (UpdatedRoles rs, s\<lparr>signups := AList.update userId info' su\<rparr>)
           else if action = ''leave'' then
             (RemovedFromSignups, s\<lparr>signups := AList.delete userId su\<rparr>)
           else (NoReply, s))"

text \<open>Button handler of the second variant (lines 1592-1659).\<close>

definition buttonHandler ::
  "int \<Rightarrow> session \<Rightarrow> string \<Rightarrow> string \<Rightarrow> string \<Rightarrow> string \<Rightarrow> reply \<times> session" where
  "buttonHandler now s userId dname action payload =
     (if isLocked now s then (SignupsLocked, s)
      else
        let (info0, su) = ensureEntry (signups s) userId
                            \<lparr>roles = [], displayName = dname, classes = Some nullClasses\<rparr>;
            info = ensureClasses info0
        in if action = ''toggle'' then
             let rs = toggledRoles payload (roles info);
                 info' = info\<lparr>roles := rs, displayName := dname\<rparr>
             in (UpdatedRoles rs, s\<lparr>signups := AList.update userId info' su\<rparr>)
           else if action = ''leave'' then
             (RemovedFromSignups, s\<lparr>signups := AList.delete userId su\<rparr>)
           else (NoReply, s))"

text \<open>The class tables (lines 786-822).\<close>

definition WOW_CLASSES :: "(string \<times> string) list" where
  "WOW_CLASSES =
     [(''WARRIOR'', ''Warrior''), (''PALADIN'', ''Paladin''), (''HUNTER'', ''Hunter''),
      (''ROGUE'', ''Rogue''), (''PRIEST'', ''Priest''), (''DEATH_KNIGHT'', ''Death Knight''),
      (''SHAMAN'', ''Shaman''), (''MAGE'', ''Mage''), (''WARLOCK'', ''Warlock''),
      (''MONK'', ''Monk''), (''DRUID'', ''Druid''), (''DEMON_HUNTER'', ''Demon Hunter''),
      (''EVOKER'', ''Evoker'')]"

definition ROLE_CLASSES :: "(string \<times> string list) list" where
  "ROLE_CLASSES =
     [(''TANK'', [''WARRIOR'', ''PALADIN'', ''DEATH_KNIGHT'', ''MONK'', ''DRUID'', ''DEMON_HUNTER'']),
      (''HEAL'', [''PALADIN'', ''PRIEST'', ''SHAMAN'', ''MONK'', ''DRUID'', ''EVOKER'']),
      (''DPS'', map fst WOW_CLASSES)]"

text \<open>\<^verbatim>\<open>ROLE_CLASSES[roleKey] || new Set()\<close>.\<close>

definition allowedClasses :: "string \<Rightarrow> string list" where
  "allowedClasses roleKey = (case map_of ROLE_CLASSES roleKey of Some c \<Rightarrow> c | None \<Rightarrow> [])"

text \<open>Select-menu handler of the second variant (lines 1528-1591).\<close>

definition selectMenuHandler ::
  "int \<Rightarrow> session \<Rightarrow> string \<Rightarrow> string \<Rightarrow> string \<Rightarrow> string \<Rightarrow> reply \<times> session" where
  "selectMenuHandler now s userId dname roleKey val =
     (if isLocked now s then (SignupsLocked, s)
      else
        let (info0, su) = ensureEntry (signups s) userId
                            \<lparr>roles = [], displayName = dname, classes = Some nullClasses\<rparr>;
            info = ensureClasses (info0\<lparr>displayName := dname\<rparr>)
        in if roleKey \<notin> set (newSet (roles info)) then (PickRoleFirst roleKey, s)
           else if val \<noteq> ''UNSET'' \<and> val \<notin> set (allowedClasses roleKey) then
             (ClassCannotPerform, s)
           else
             let stored = (if val = ''UNSET'' then None else Some val);
                 cs = (case classes info of Some c \<Rightarrow> c | None \<Rightarrow> nullClasses);
                 info' = info\<lparr>classes := Some (AList.update roleKey stored cs)\<rparr>
             in (UpdatedClass roleKey stored, s\<lparr>signups := AList.update userId info' su\<rparr>))"

text \<open>What a session says about a participant: the eligible roles and the class stored
  for a role. A participant without an entry has no role and no class.\<close>

definition eligibleRoles :: "session \<Rightarrow> string \<Rightarrow> string set" where
  "eligibleRoles s userId =
     (case map_of (signups s) userId of None \<Rightarrow> {} | Some info \<Rightarrow> set (roles info))"

definition storedClass :: "session \<Rightarrow> string \<Rightarrow> string \<Rightarrow> string option" where
  "storedClass s userId roleKey =
     (case map_of (signups s) userId of
        None \<Rightarrow> None
      | Some info \<Rightarrow>
          (case classes info of
             None \<Rightarrow> None
           | Some c \<Rightarrow> (case map_of c roleKey of Some (Some v) \<Rightarrow> Some v | _ \<Rightarrow> None)))"

section \<open>Properties of the roster handlers\<close>

lemma set_newSet_aux: "set (foldl (\<lambda>s x. setAdd x s) acc xs) = set acc \<union> set xs"
  by (induction xs arbitrary: acc) (auto simp: setAdd_def)

lemma set_newSet [simp]: "set (newSet xs) = set xs"
  by (simp add: newSet_def set_newSet_aux)

lemma distinct_newSet_aux: "distinct acc \<Longrightarrow> distinct (foldl (\<lambda>s x. setAdd x s) acc xs)"
  by (induction xs arbitrary: acc) (auto simp: setAdd_def)

lemma distinct_newSet [simp]: "distinct (newSet xs)"
  by (simp add: newSet_def distinct_newSet_aux)

lemma set_toggledRoles:
  "set (toggledRoles r rs) = (if r \<in> set rs then set rs - {r} else insert r (set rs))"
  by (auto simp: toggledRoles_def Let_def setDelete_def setAdd_def)

lemma isLocked_signups [simp]: "isLocked now (s\<lparr>signups := x\<rparr>) = isLocked now s"
  by (simp add: isLocked_def)

lemma buttonHandler_toggle_roles:
  assumes "\<not> isLocked now s"
  shows "eligibleRoles (snd (buttonHandler now s u n ''toggle'' r)) u =
        (if r \<in> eligibleRoles s u then eligibleRoles s u - {r} else insert r (eligibleRoles s u))"
  using assms
  by (auto simp: buttonHandler_def ensureEntry_def ensureClasses_def eligibleRoles_def
      update_conv' set_toggledRoles Let_def split: option.splits)

lemma buttonHandler1_toggle_roles:
  assumes "\<not> isLocked now s"
  shows "eligibleRoles (snd (buttonHandler1 now s u n ''toggle'' r)) u =
        (if r \<in> eligibleRoles s u then eligibleRoles s u - {r} else insert r (eligibleRoles s u))"
  using assms
  by (auto simp: buttonHandler1_def ensureEntry_def eligibleRoles_def
      update_conv' set_toggledRoles Let_def split: option.splits)

lemma buttonHandler_lockAt: "lockAt (snd (buttonHandler now s u n a p)) = lockAt s"
  by (simp add: buttonHandler_def Let_def split: prod.splits)

lemma buttonHandler1_lockAt: "lockAt (snd (buttonHandler1 now s u n a p)) = lockAt s"
  by (simp add: buttonHandler1_def Let_def split: prod.splits)

lemma isLocked_cong: "lockAt s' = lockAt s \<Longrightarrow> isLocked now s' = isLocked now s"
  by (simp add: isLocked_def)

lemma toggle_set_twice:
  "E1 = (if r \<in> E then E - {r} else insert r E) \<Longrightarrow>
   E2 = (if r \<in> E1 then E1 - {r} else insert r E1) \<Longrightarrow> E2 = (E :: 'a set)"
  by (cases "r \<in> E") auto

text \<open>
  Claim C9. Pressing the toggle button for a role twice in a row, with nothing else
  changing the session in between and both presses treated alike by the lock guard (both
  accepted, or both refused), leaves the participant's set of eligible roles as it was
  before the first press. This holds for the button handler of either variant, for a
  participant with or without a signup entry, and for any display names.
\<close>

theorem toggle_twice_restores_roles:
  assumes "isLocked now2 s = isLocked now1 s"
  shows "eligibleRoles (snd (buttonHandler now2 (snd (buttonHandler now1 s u n1 ''toggle'' r)) u n2 ''toggle'' r)) u
           = eligibleRoles s u
       \<and> eligibleRoles (snd (buttonHandler1 now2 (snd (buttonHandler1 now1 s u n1 ''toggle'' r)) u n2 ''toggle'' r)) u
           = eligibleRoles s u"
proof (cases "isLocked now1 s")
  case True
  with assms show ?thesis by (simp add: buttonHandler_def buttonHandler1_def)
next
  case False
  let ?s1 = "snd (buttonHandler now1 s u n1 ''toggle'' r)"
  let ?t1 = "snd (buttonHandler1 now1 s u n1 ''toggle'' r)"
  have u1: "\<not> isLocked now2 ?s1"
    using False assms isLocked_cong [OF buttonHandler_lockAt, of now2 now1 s u n1 "''toggle''" r]
    by simp
  have v1: "\<not> isLocked now2 ?t1"
    using False assms isLocked_cong [OF buttonHandler1_lockAt, of now2 now1 s u n1 "''toggle''" r]
    by simp
  have a: "eligibleRoles (snd (buttonHandler now2 ?s1 u n2 ''toggle'' r)) u = eligibleRoles s u"
    by (rule toggle_set_twice [OF buttonHandler_toggle_roles [OF False]
          buttonHandler_toggle_roles [OF u1]])
  have b: "eligibleRoles (snd (buttonHandler1 now2 ?t1 u n2 ''toggle'' r)) u = eligibleRoles s u"
    by (rule toggle_set_twice [OF buttonHandler1_toggle_roles [OF False]
          buttonHandler1_toggle_roles [OF v1]])
  from a b show ?thesis by (rule conjI)
qed

definition demoSession :: session where
  "demoSession = \<lparr>session_id = ''s-1'', title = ''Keys'', description = [], lockAt = Some 100,
     signups = [(''u1'', \<lparr>roles = [''TANK'', ''DPS''], displayName = ''Ann'', classes = None\<rparr>)],
     createdAt = 1, lastDraft = None\<rparr>"

theorem toggle_twice_restores_roles_witness:
  "isLocked 20 demoSession = isLocked 10 demoSession
   \<and> eligibleRoles (snd (buttonHandler 20 (snd (buttonHandler 10 demoSession ''u1'' ''Ann'' ''toggle'' ''TANK'')) ''u1'' ''Ann'' ''toggle'' ''TANK'')) ''u1''
       = {''TANK'', ''DPS''}"
proof -
  have h: "isLocked 20 demoSession = isLocked 10 demoSession"
    by (simp add: isLocked_def demoSession_def truthy_def)
  have e: "eligibleRoles demoSession ''u1'' = {''TANK'', ''DPS''}"
    by (simp add: eligibleRoles_def demoSession_def)
  from toggle_twice_restores_roles [OF h, of "''u1''" "''Ann''" "''TANK''" "''Ann''"]
  have "eligibleRoles (snd (buttonHandler 20 (snd (buttonHandler 10 demoSession ''u1'' ''Ann'' ''toggle'' ''TANK'')) ''u1'' ''Ann'' ''toggle'' ''TANK'')) ''u1''
       = eligibleRoles demoSession ''u1''" by (rule conjunct1)
  with h e show ?thesis by simp
qed

lemma select_locked:
  "isLocked now s \<Longrightarrow> selectMenuHandler now s u n roleKey v = (SignupsLocked, s)"
  by (simp add: selectMenuHandler_def)

lemma select_role_missing:
  assumes "\<not> isLocked now s" "roleKey \<notin> eligibleRoles s u"
  shows "selectMenuHandler now s u n roleKey v = (PickRoleFirst roleKey, s)"
proof (cases "map_of (signups s) u")
  case None
  with assms show ?thesis
    by (simp add: selectMenuHandler_def ensureEntry_def ensureClasses_def)
next
  case (Some info)
  with assms show ?thesis
    by (cases "classes info")
       (simp_all add: selectMenuHandler_def ensureEntry_def ensureClasses_def eligibleRoles_def)
qed

lemma select_class_invalid:
  assumes "\<not> isLocked now s" "roleKey \<in> eligibleRoles s u" "v \<noteq> ''UNSET''"
    "v \<notin> set (allowedClasses roleKey)"
  shows "selectMenuHandler now s u n roleKey v = (ClassCannotPerform, s)"
proof (cases "map_of (signups s) u")
  case None
  with assms show ?thesis by (simp add: eligibleRoles_def)
next
  case (Some info)
  with assms show ?thesis
    by (cases "classes info")
       (simp_all add: selectMenuHandler_def ensureEntry_def ensureClasses_def eligibleRoles_def)
qed

lemma select_accepted:
  assumes "\<not> isLocked now s" "roleKey \<in> eligibleRoles s u"
    "v = ''UNSET'' \<or> v \<in> set (allowedClasses roleKey)"
  shows "fst (selectMenuHandler now s u n roleKey v)
          = UpdatedClass roleKey (if v = ''UNSET'' then None else Some v)
        \<and> storedClass (snd (selectMenuHandler now s u n roleKey v)) u roleKey
          = (if v = ''UNSET'' then None else Some v)
        \<and> eligibleRoles (snd (selectMenuHandler now s u n roleKey v)) u = eligibleRoles s u"
proof (cases "map_of (signups s) u")
  case None
  with assms show ?thesis by (simp add: eligibleRoles_def)
next
  case (Some info)
  with assms have r: "roleKey \<in> set (roles info)" by (simp add: eligibleRoles_def)
  show ?thesis
  proof (cases "classes info")
    case None
    with Some assms(1,3) r show ?thesis
      by (auto simp add: selectMenuHandler_def ensureEntry_def ensureClasses_def eligibleRoles_def
          storedClass_def update_conv' Let_def)
  next
    case (Some c)
    with \<open>map_of (signups s) u = Some info\<close> assms(1,3) r show ?thesis
      by (auto simp add: selectMenuHandler_def ensureEntry_def ensureClasses_def eligibleRoles_def
          storedClass_def update_conv' Let_def)
  qed
qed

text \<open>
  Claim C10. The class selection of the second variant, in the order of its checks: a
  locked session refuses; a role that is not among the participant's eligible roles is
  refused with the pick-the-role-first reply; a value other than \<^verbatim>\<open>UNSET\<close> that is not in the
  static table \<^const>\<open>ROLE_CLASSES\<close> for the role is refused with the class-cannot-perform
  reply; every refusal stores the session it was given. Otherwise the selection is
  accepted: \<^verbatim>\<open>UNSET\<close> is always accepted and clears the class stored for the role, any other
  accepted value is the class stored for the role afterwards, and the eligible roles are
  untouched.
\<close>

theorem class_selection_outcomes:
  "(isLocked now s \<longrightarrow> selectMenuHandler now s u n roleKey v = (SignupsLocked, s))
   \<and> (\<not> isLocked now s \<and> roleKey \<notin> eligibleRoles s u \<longrightarrow>
        selectMenuHandler now s u n roleKey v = (PickRoleFirst roleKey, s))
   \<and> (\<not> isLocked now s \<and> roleKey \<in> eligibleRoles s u \<and> v \<noteq> ''UNSET''
        \<and> v \<notin> set (allowedClasses roleKey) \<longrightarrow>
        selectMenuHandler now s u n roleKey v = (ClassCannotPerform, s))
   \<and> (\<not> isLocked now s \<and> roleKey \<in> eligibleRoles s u
        \<and> (v = ''UNSET'' \<or> v \<in> set (allowedClasses roleKey)) \<longrightarrow>
        fst (selectMenuHandler now s u n roleKey v)
          = UpdatedClass roleKey (if v = ''UNSET'' then None else Some v)
        \<and> storedClass (snd (selectMenuHandler now s u n roleKey v)) u roleKey
          = (if v = ''UNSET'' then None else Some v)
        \<and> eligibleRoles (snd (selectMenuHandler now s u n roleKey v)) u = eligibleRoles s u)"
  using select_locked [of now s u n roleKey v] select_role_missing [of now s roleKey u n v]
    select_class_invalid [of now s roleKey u v n] select_accepted [of now s roleKey u v n]
  by blast


theorem class_selection_outcomes_witness:
  "isLocked 200 demoSession
   \<and> selectMenuHandler 200 demoSession ''u1'' ''Ann'' ''TANK'' ''WARRIOR'' = (SignupsLocked, demoSession)
   \<and> \<not> isLocked 10 demoSession \<and> ''HEAL'' \<notin> eligibleRoles demoSession ''u1''
   \<and> selectMenuHandler 10 demoSession ''u1'' ''Ann'' ''HEAL'' ''PRIEST''
        = (PickRoleFirst ''HEAL'', demoSession)
   \<and> ''TANK'' \<in> eligibleRoles demoSession ''u1'' \<and> ''MAGE'' \<notin> set (allowedClasses ''TANK'')
   \<and> selectMenuHandler 10 demoSession ''u1'' ''Ann'' ''TANK'' ''MAGE''
        = (ClassCannotPerform, demoSession)
   \<and> ''WARRIOR'' \<in> set (allowedClasses ''TANK'')
   \<and> storedClass (snd (selectMenuHandler 10 demoSession ''u1'' ''Ann'' ''TANK'' ''WARRIOR'')) ''u1'' ''TANK''
        = Some ''WARRIOR''
   \<and> storedClass (snd (selectMenuHandler 10 demoSession ''u1'' ''Ann'' ''TANK'' ''UNSET'')) ''u1'' ''TANK''
        = None"
proof -
  have l: "isLocked 200 demoSession" and n: "\<not> isLocked 10 demoSession"
    by (simp_all add: isLocked_def demoSession_def truthy_def)
  have h: "''HEAL'' \<notin> eligibleRoles demoSession ''u1''"
    and t: "''TANK'' \<in> eligibleRoles demoSession ''u1''"
    by (simp_all add: eligibleRoles_def demoSession_def)
  have m: "''MAGE'' \<notin> set (allowedClasses ''TANK'')"
    and w: "''WARRIOR'' \<in> set (allowedClasses ''TANK'')"
    by (simp_all add: allowedClasses_def ROLE_CLASSES_def)
  have u: "''MAGE'' \<noteq> ''UNSET''" "''WARRIOR'' \<noteq> ''UNSET''" by simp_all
  show ?thesis
    using l n h t m w u
      class_selection_outcomes [of 200 demoSession "''u1''" "''Ann''" "''TANK''" "''WARRIOR''"]
      class_selection_outcomes [of 10 demoSession "''u1''" "''Ann''" "''HEAL''" "''PRIEST''"]
      class_selection_outcomes [of 10 demoSession "''u1''" "''Ann''" "''TANK''" "''MAGE''"]
      class_selection_outcomes [of 10 demoSession "''u1''" "''Ann''" "''TANK''" "''WARRIOR''"]
      class_selection_outcomes [of 10 demoSession "''u1''" "''Ann''" "''TANK''" "''UNSET''"]
    by simp
qed


section \<open>The grouping solver\<close>

subsection \<open>Random source and shuffle\<close>

type_synonym rng = "nat list"

text \<open>\<^verbatim>\<open>Math.floor(Math.random() * k)\<close> for \<open>k \<ge> 1\<close>.\<close>

definition randomInt :: "nat \<Rightarrow> rng \<Rightarrow> nat \<times> rng" where
  "randomInt k r = (case r of [] \<Rightarrow> (0, []) | x # r' \<Rightarrow> (x mod k, r'))"

text \<open>
  \<^verbatim>\<open>shuffle\<close> (lines 206-212): \<^verbatim>\<open>for (i = arr.length - 1; i > 0; i--)\<close> draws
  \<open>j\<close> below \<open>i + 1\<close> and exchanges the elements at \<open>i\<close> and \<open>j\<close>. \<open>shuffleFrom i\<close> is the
  loop from index \<open>i\<close> downwards.
\<close>

fun shuffleFrom :: "nat \<Rightarrow> 'a list \<Rightarrow> rng \<Rightarrow> 'a list \<times> rng" where
  "shuffleFrom 0 arr r = (arr, r)"
| "shuffleFrom (Suc i) arr r =
     (let (j, r') = randomInt (Suc i + 1) r
      in shuffleFrom i (arr[Suc i := arr ! j, j := arr ! Suc i]) r')"

definition shuffle :: "'a list \<Rightarrow> rng \<Rightarrow> 'a list \<times> rng" where
  "shuffle arr r = shuffleFrom (length arr - 1) arr r"

subsection \<open>One attempt\<close>

text \<open>
  The mutable variables of one attempt: the set \<^verbatim>\<open>used\<close>, the array \<^verbatim>\<open>groups\<close>,
  and the random source.
\<close>

record solver_state =
  st_used :: "string list"
  st_groups :: "solver_group list"
  st_rng :: rng

text \<open>\<^verbatim>\<open>pick(role)\<close> (lines 226-230).\<close>

definition pick :: "string \<Rightarrow> player list \<Rightarrow> string list \<Rightarrow> rng \<Rightarrow> player option \<times> rng" where
  "pick role pool usedIds r =
     (let candidates = filter (\<lambda>p. role \<in> set (player_roles p) \<and> player_id p \<notin> set usedIds) pool
      in if candidates = [] then (None, r)
         else let (k, r') = randomInt (length candidates) r in (Some (candidates ! k), r'))"

text \<open>
  The tank and healer loop (lines 233-243), from group index \<open>g\<close> on; \<^verbatim>\<open>break\<close> leaves
  the loop with the state reached.
\<close>

function assignTanksHeals :: "player list \<Rightarrow> nat \<Rightarrow> solver_state \<Rightarrow> solver_state" where
  "assignTanksHeals pool g st =
     (if g < length (st_groups st) then
        (case pick ''TANK'' pool (st_used st) (st_rng st) of
           (None, r1) \<Rightarrow> st\<lparr>st_rng := r1\<rparr>
         | (Some t, r1) \<Rightarrow>
             let used1 = setAdd (player_id t) (st_used st);
                 groups1 = (st_groups st)[g := (st_groups st ! g)\<lparr>tank := Some t\<rparr>]
             in (case pick ''HEAL'' pool used1 r1 of
                   (None, r2) \<Rightarrow> \<lparr>st_used = used1, st_groups = groups1, st_rng = r2\<rparr>
                 | (Some h, r2) \<Rightarrow>
                     assignTanksHeals pool (g + 1)
                       \<lparr>st_used = setAdd (player_id h) used1,
                        st_groups = groups1[g := (groups1 ! g)\<lparr>heal := Some h\<rparr>],
                        st_rng = r2\<rparr>))
      else st)"
  by pat_completeness auto
termination
  by (relation "measure (\<lambda>(pool, g, st). length (st_groups st) - g)") auto

declare assignTanksHeals.simps [simp del]

text \<open>
  A \<^verbatim>\<open>for (const p of top)\<close> loop whose body may return \<^verbatim>\<open>true\<close> from the enclosing
  function: the loop stops at the first element for which the body says so, and
  yields \<^verbatim>\<open>false\<close> when the list is exhausted.
\<close>

fun tryEach :: "('a \<Rightarrow> 's \<Rightarrow> bool \<times> 's) \<Rightarrow> 'a list \<Rightarrow> 's \<Rightarrow> bool \<times> 's" where
  "tryEach body [] s = (False, s)"
| "tryEach body (p # ps) s =
     (case body p s of (ok, s') \<Rightarrow> if ok then (True, s') else tryEach body ps s')"

lemma tryEach_same_on_list:
  "(\<And>x u. x \<in> set xs \<Longrightarrow> f x u = g x u) \<Longrightarrow> tryEach f xs s = tryEach g xs s"
  by (induction xs arbitrary: s) (auto split: prod.splits)

lemma tryEach_cong [fundef_cong]:
  "xs = ys \<Longrightarrow> s = t \<Longrightarrow> (\<And>x u. x \<in> set ys \<Longrightarrow> f x u = g x u) \<Longrightarrow>
   tryEach f xs s = tryEach g ys t"
  using tryEach_same_on_list [of ys f g t] by simp

text \<open>The candidates of one DPS slot (lines 253-258): unused, fewest roles first (the
  sort is stable), the first ten, shuffled.\<close>

definition shuffledTop :: "player list \<Rightarrow> solver_state \<Rightarrow> player list \<times> rng" where
  "shuffledTop dpsCandidates st =
     (let candidates = sort_key (\<lambda>p. length (player_roles p))
                         (filter (\<lambda>p. player_id p \<notin> set (st_used st)) dpsCandidates);
          top = take (min 10 (length candidates)) candidates
      in shuffle top (st_rng st))"

text \<open>\<^verbatim>\<open>used.add(p.id); groups[groupIndex].dps.push(p)\<close> and its undoing
  \<^verbatim>\<open>used.delete(p.id); groups[groupIndex].dps.pop()\<close>.\<close>

definition place :: "nat \<Rightarrow> player \<Rightarrow> solver_state \<Rightarrow> solver_state" where
  "place groupIndex p st =
     st\<lparr>st_used := setAdd (player_id p) (st_used st),
        st_groups := (st_groups st)[groupIndex :=
                       (st_groups st ! groupIndex)\<lparr>dps := dps (st_groups st ! groupIndex) @ [p]\<rparr>]\<rparr>"

definition unplace :: "nat \<Rightarrow> player \<Rightarrow> solver_state \<Rightarrow> solver_state" where
  "unplace groupIndex p st =
     st\<lparr>st_used := setDelete (player_id p) (st_used st),
        st_groups := (st_groups st)[groupIndex :=
                       (st_groups st ! groupIndex)\<lparr>dps := butlast (dps (st_groups st ! groupIndex))\<rparr>]\<rparr>"

text \<open>
  \<^verbatim>\<open>fillDps(groupIndex, slotIndex)\<close> (lines 249-270). \<open>n\<close> is \<^verbatim>\<open>groups.length\<close>: the
  array is created with \<^verbatim>\<open>targetGroups\<close> elements and only its elements change, so the
  length read by the first test is the same number in every call.
\<close>

function fillDps ::
  "player list \<Rightarrow> nat \<Rightarrow> nat \<Rightarrow> nat \<Rightarrow> solver_state \<Rightarrow> bool \<times> solver_state" where
  "fillDps dpsCandidates n groupIndex slotIndex st =
     (if groupIndex \<ge> n then (True, st)
      else if slotIndex \<ge> 3 then fillDps dpsCandidates n (groupIndex + 1) 0 st
      else
        tryEach
          (\<lambda>p s. case fillDps dpsCandidates n groupIndex (slotIndex + 1) (place groupIndex p s) of
                    (ok, s2) \<Rightarrow> if ok then (True, s2) else (False, unplace groupIndex p s2))
          (fst (shuffledTop dpsCandidates st))
          (st\<lparr>st_rng := snd (shuffledTop dpsCandidates st)\<rparr>))"
  by pat_completeness auto
termination
  by (relation "measure (\<lambda>(dc, n, gi, si, st). 4 * (n - gi) - min si 3)") auto

declare fillDps.simps [simp del]

text \<open>
  The body of the attempt loop (lines 217-275). \<open>attemptTanksHeals\<close> is the state after
  the tank and healer loop; the attempt is given up (\<^verbatim>\<open>continue\<close>) when a group lacks
  a tank or a healer, or when \<^verbatim>\<open>fillDps(0, 0)\<close> fails. A completed attempt yields its
  score \<^verbatim>\<open>used.size\<close>, its groups and its bench.
\<close>

definition emptyGroup :: solver_group where
  "emptyGroup = \<lparr>tank = None, heal = None, dps = []\<rparr>"

definition attemptTanksHeals :: "player list \<Rightarrow> nat \<Rightarrow> rng \<Rightarrow> player list \<times> solver_state" where
  "attemptTanksHeals players targetGroups r =
     (let (pool, r1) = shuffle players r
      in (pool, assignTanksHeals pool 0
                  \<lparr>st_used = [], st_groups = replicate targetGroups emptyGroup, st_rng = r1\<rparr>))"

definition tanksHealsAssigned :: "solver_state \<Rightarrow> bool" where
  "tanksHealsAssigned st = (\<not> list_ex (\<lambda>gr. tank gr = None \<or> heal gr = None) (st_groups st))"

type_synonym best = "nat \<times> solver_group list \<times> player list"

definition attempt :: "player list \<Rightarrow> nat \<Rightarrow> rng \<Rightarrow> best option \<times> rng" where
  "attempt players targetGroups r =
     (let (pool, st1) = attemptTanksHeals players targetGroups r
      in if \<not> tanksHealsAssigned st1 then (None, st_rng st1)
         else
           let dpsCandidates = filter (\<lambda>p. ''DPS'' \<in> set (player_roles p)) pool;
               (ok, st2) = fillDps dpsCandidates (length (st_groups st1)) 0 0 st1
           in if \<not> ok then (None, st_rng st2)
              else (Some (length (st_used st2), st_groups st2,
                          filter (\<lambda>p. player_id p \<notin> set (st_used st2)) pool),
                    st_rng st2))"

subsection \<open>The attempt loop and the result\<close>

text \<open>
  The loop \<^verbatim>\<open>for (attempt = 0; attempt < attempts; attempt++)\<close> (lines 216-281) with
  \<open>k\<close> iterations left; the body does not read the counter. \<^verbatim>\<open>best\<close> is replaced by a
  completed attempt when there is none yet or the score is strictly higher, and the
  loop is left at once when the score is \<^verbatim>\<open>targetGroups * 5\<close>.
\<close>

fun attemptsLoop :: "player list \<Rightarrow> nat \<Rightarrow> nat \<Rightarrow> best option \<Rightarrow> rng \<Rightarrow> best option" where
  "attemptsLoop players targetGroups 0 best r = best"
| "attemptsLoop players targetGroups (Suc k) best r =
     (case attempt players targetGroups r of
        (None, r') \<Rightarrow> attemptsLoop players targetGroups k best r'
      | (Some (score, gs, bn), r') \<Rightarrow>
          if (case best of None \<Rightarrow> True | Some (bestScore, _, _) \<Rightarrow> score > bestScore) then
            (if score = targetGroups * 5 then Some (score, gs, bn)
             else attemptsLoop players targetGroups k (Some (score, gs, bn)) r')
          else attemptsLoop players targetGroups k best r')"

datatype reason =
    CannotFormAnyFullGroups nat nat nat nat
  | TriedSolves int

record result =
  groups :: "solver_group list"
  bench :: "player list"
  reason :: "reason option"

text \<open>The players built from the signups (lines 1014-1019).\<close>

definition playersOf :: "signups \<Rightarrow> player list" where
  "playersOf su =
     map (\<lambda>(uid, info).
            \<lparr>player_id = uid,
             name = (if displayName info = [] then ''<@'' @ uid @ ''>'' else displayName info),
             player_roles = newSet (roles info),
             player_classes = (case classes info of Some c \<Rightarrow> c | None \<Rightarrow> [])\<rparr>) su"

definition countRole :: "string \<Rightarrow> player list \<Rightarrow> nat" where
  "countRole role players = length (filter (\<lambda>p. role \<in> set (player_roles p)) players)"

definition maxByCounts :: "player list \<Rightarrow> int" where
  "maxByCounts players =
     min (min (min (int (countRole ''TANK'' players)) (int (countRole ''HEAL'' players)))
              (int (countRole ''DPS'' players) div 3))
         (int (length players) div 5)"

text \<open>\<^verbatim>\<open>desiredGroups ? Math.min(desiredGroups, maxByCounts) : maxByCounts\<close> (line 1026).\<close>

definition targetGroups :: "player list \<Rightarrow> int option \<Rightarrow> int" where
  "targetGroups players desiredGroups =
     (case desiredGroups of
        Some d \<Rightarrow> if truthy desiredGroups then min d (maxByCounts players) else maxByCounts players
      | None \<Rightarrow> maxByCounts players)"

text \<open>\<^verbatim>\<open>rollGroups(signups, desiredGroups, attempts)\<close> (lines 1013-1122).\<close>

definition rollGroups :: "signups \<Rightarrow> int option \<Rightarrow> int \<Rightarrow> rng \<Rightarrow> result" where
  "rollGroups su desiredGroups attempts r =
     (let players = playersOf su;
          target = targetGroups players desiredGroups
      in if target \<le> 0 then
           \<lparr>groups = [], bench = players,
            reason = Some (CannotFormAnyFullGroups (countRole ''TANK'' players)
                       (countRole ''HEAL'' players) (countRole ''DPS'' players) (length players))\<rparr>
         else
           (case attemptsLoop players (nat target) (nat attempts) None r of
              None \<Rightarrow> \<lparr>groups = [], bench = players, reason = Some (TriedSolves attempts)\<rparr>
            | Some (score, gs, bn) \<Rightarrow> \<lparr>groups = gs, bench = bn, reason = None\<rparr>))"

subsection \<open>The draft\<close>

definition nthOpt :: "'a list \<Rightarrow> nat \<Rightarrow> 'a option" where
  "nthOpt xs i = (if i < length xs then Some (xs ! i) else None)"

text \<open>\<^verbatim>\<open>draftFromResult\<close> (lines 1142-1154); a player reference is copied field by field.\<close>

definition draftGroup :: "solver_group \<Rightarrow> draft_group" where
  "draftGroup g =
     \<lparr>slot_tank = tank g, slot_heal = heal g,
      dps1 = nthOpt (dps g) 0, dps2 = nthOpt (dps g) 1, dps3 = nthOpt (dps g) 2\<rparr>"

definition draftFromResult :: "int \<Rightarrow> result \<Rightarrow> draft" where
  "draftFromResult now res =
     \<lparr>draft_createdAt = now,
      draft_groups = map draftGroup (groups res),
      draft_bench = map Some (bench res)\<rparr>"

section \<open>Correctness of one attempt\<close>

subsection \<open>Shuffle and pick\<close>

lemma randomInt_less: "0 < k \<Longrightarrow> fst (randomInt k r) < k"
  by (cases r) (simp_all add: randomInt_def)

lemma mset_shuffleFrom: "i < length arr \<Longrightarrow> mset (fst (shuffleFrom i arr r)) = mset arr"
proof (induction i arbitrary: arr r)
  case 0
  then show ?case by simp
next
  case (Suc i)
  obtain j r' where jr: "randomInt (Suc i + 1) r = (j, r')" by (cases "randomInt (Suc i + 1) r")
  have "j < Suc i + 1" using randomInt_less [of "Suc i + 1" r] jr by simp
  with Suc.prems have j: "j < length arr" by simp
  let ?arr' = "arr[Suc i := arr ! j, j := arr ! Suc i]"
  have m: "mset ?arr' = mset arr" using Suc.prems j by (simp add: mset_swap)
  have "i < length ?arr'" using Suc.prems by simp
  from Suc.IH [OF this, of r'] m jr show ?case by simp
qed

lemma mset_shuffle: "mset (fst (shuffle arr r)) = mset arr"
proof (cases arr)
  case Nil
  then show ?thesis by (simp add: shuffle_def)
next
  case (Cons a as)
  then show ?thesis by (simp add: shuffle_def mset_shuffleFrom)
qed

lemma set_shuffle: "set (fst (shuffle arr r)) = set arr"
  using mset_shuffle [of arr r] by (rule mset_eq_setD)

lemma pick_Some:
  assumes "pick role pool u r = (Some p, r')"
  shows "p \<in> set pool \<and> role \<in> set (player_roles p) \<and> player_id p \<notin> set u"
proof -
  let ?c = "filter (\<lambda>p. role \<in> set (player_roles p) \<and> player_id p \<notin> set u) pool"
  from assms have ne: "?c \<noteq> []" by (auto simp: pick_def Let_def split: if_splits)
  obtain k r1 where k: "randomInt (length ?c) r = (k, r1)" by (cases "randomInt (length ?c) r")
  have "k < length ?c" using randomInt_less [of "length ?c" r] k ne by simp
  then have "?c ! k \<in> set ?c" by (rule nth_mem)
  moreover from assms ne k have "p = ?c ! k" by (simp add: pick_def Let_def)
  ultimately have "p \<in> set ?c" by simp
  then show ?thesis by simp
qed

lemma set_shuffledTop:
  "set (fst (shuffledTop dc st)) \<subseteq> {p \<in> set dc. player_id p \<notin> set (st_used st)}"
proof -
  let ?c = "sort_key (\<lambda>p. length (player_roles p)) (filter (\<lambda>p. player_id p \<notin> set (st_used st)) dc)"
  have "set (fst (shuffledTop dc st)) = set (take (min 10 (length ?c)) ?c)"
    by (simp add: shuffledTop_def Let_def set_shuffle)
  also have "\<dots> \<subseteq> set ?c" by (rule set_take_subset)
  also have "\<dots> = {p \<in> set dc. player_id p \<notin> set (st_used st)}" by auto
  finally show ?thesis .
qed

subsection \<open>The invariant of an attempt\<close>

text \<open>
  The players a group holds, in the order tank, healer, DPS, and the players all groups
  hold. The invariant of an attempt: every placed player is in the pool, no id is placed
  twice, \<^verbatim>\<open>used\<close> is exactly the set of placed ids, and every slot holds a player
  eligible for its role.
\<close>

definition groupPlayers :: "solver_group \<Rightarrow> player list" where
  "groupPlayers g =
     (case tank g of None \<Rightarrow> [] | Some t \<Rightarrow> [t]) @ (case heal g of None \<Rightarrow> [] | Some h \<Rightarrow> [h]) @ dps g"

definition placed :: "solver_group list \<Rightarrow> player list" where
  "placed gs = concat (map groupPlayers gs)"

definition groupRolesOk :: "solver_group \<Rightarrow> bool" where
  "groupRolesOk g =
     ((case tank g of None \<Rightarrow> True | Some t \<Rightarrow> ''TANK'' \<in> set (player_roles t))
      \<and> (case heal g of None \<Rightarrow> True | Some h \<Rightarrow> ''HEAL'' \<in> set (player_roles h))
      \<and> list_all (\<lambda>p. ''DPS'' \<in> set (player_roles p)) (dps g))"

definition attemptInv :: "player list \<Rightarrow> string list \<Rightarrow> solver_group list \<Rightarrow> bool" where
  "attemptInv pool u gs =
     (set (placed gs) \<subseteq> set pool
      \<and> distinct (map player_id (placed gs))
      \<and> set u = player_id ` set (placed gs)
      \<and> distinct u
      \<and> list_all groupRolesOk gs)"

lemma placed_Cons: "placed (g # gs) = groupPlayers g @ placed gs"
  by (simp add: placed_def)

lemma placed_set_tank:
  "g < length gs \<Longrightarrow> tank (gs ! g) = None \<Longrightarrow>
   mset (placed (gs[g := (gs ! g)\<lparr>tank := Some t\<rparr>])) = mset (t # placed gs)"
proof (induction gs arbitrary: g)
  case Nil
  then show ?case by simp
next
  case (Cons a gs)
  show ?case
  proof (cases g)
    case 0
    with Cons.prems show ?thesis by (simp add: placed_Cons groupPlayers_def)
  next
    case (Suc g')
    with Cons.prems Cons.IH [of g'] show ?thesis by (simp add: placed_Cons)
  qed
qed

lemma placed_set_heal:
  "g < length gs \<Longrightarrow> heal (gs ! g) = None \<Longrightarrow>
   mset (placed (gs[g := (gs ! g)\<lparr>heal := Some h\<rparr>])) = mset (h # placed gs)"
proof (induction gs arbitrary: g)
  case Nil
  then show ?case by simp
next
  case (Cons a gs)
  show ?case
  proof (cases g)
    case 0
    with Cons.prems show ?thesis by (simp add: placed_Cons groupPlayers_def)
  next
    case (Suc g')
    with Cons.prems Cons.IH [of g'] show ?thesis by (simp add: placed_Cons)
  qed
qed

lemma placed_push:
  "g < length gs \<Longrightarrow>
   mset (placed (gs[g := (gs ! g)\<lparr>dps := dps (gs ! g) @ [p]\<rparr>])) = mset (p # placed gs)"
proof (induction gs arbitrary: g)
  case Nil
  then show ?case by simp
next
  case (Cons a gs)
  show ?case
  proof (cases g)
    case 0
    with Cons.prems show ?thesis by (simp add: placed_Cons groupPlayers_def)
  next
    case (Suc g')
    with Cons.prems Cons.IH [of g'] show ?thesis by (simp add: placed_Cons)
  qed
qed

lemma list_all_update:
  "list_all P xs \<Longrightarrow> P x \<Longrightarrow> list_all P (xs[i := x])"
  using set_update_subset_insert [of xs i x] by (auto simp: list_all_iff)

lemma setAdd_fresh: "x \<notin> set u \<Longrightarrow> setAdd x u = u @ [x]"
  by (simp add: setAdd_def)

lemma setDelete_setAdd: "x \<notin> set u \<Longrightarrow> setDelete x (setAdd x u) = u"
  by (simp add: setAdd_def setDelete_def)

text \<open>Adding an unused player of the pool keeps the invariant.\<close>
lemma attemptInv_add:
  assumes inv: "attemptInv pool u gs"
    and p: "p \<in> set pool" "player_id p \<notin> set u"
    and m: "mset (placed gs') = mset (p # placed gs)"
    and ok: "list_all groupRolesOk gs'"
  shows "attemptInv pool (setAdd (player_id p) u) gs'"
proof -
  have s: "set (placed gs') = insert p (set (placed gs))"
    using mset_eq_setD [OF m] by simp
  have "mset (map player_id (placed gs')) = mset (map player_id (p # placed gs))"
    using m by simp
  then have d: "distinct (map player_id (placed gs')) = distinct (map player_id (p # placed gs))"
    by (rule mset_eq_imp_distinct_iff)
  from inv have i: "set (placed gs) \<subseteq> set pool" "distinct (map player_id (placed gs))"
    "set u = player_id ` set (placed gs)" "distinct u"
    by (simp_all add: attemptInv_def)
  have "player_id p \<notin> player_id ` set (placed gs)" using p(2) i(3) by simp
  with i(2) d have d': "distinct (map player_id (placed gs'))" by simp
  show ?thesis
    unfolding attemptInv_def using s d' i p ok by (simp add: setAdd_fresh)
qed

subsection \<open>The tank and healer loop\<close>

lemma map_update_same:
  "i < length xs \<Longrightarrow> f x = f (xs ! i) \<Longrightarrow> map f (xs[i := x]) = map f xs"
  by (simp add: map_update list_update_same_conv)

lemma assignTanksHeals_inv:
  assumes "attemptInv pool (st_used st) (st_groups st)"
    and "\<forall>i. g \<le> i \<and> i < length (st_groups st) \<longrightarrow>
           tank (st_groups st ! i) = None \<and> heal (st_groups st ! i) = None"
  shows "attemptInv pool (st_used (assignTanksHeals pool g st)) (st_groups (assignTanksHeals pool g st))
       \<and> length (st_groups (assignTanksHeals pool g st)) = length (st_groups st)
       \<and> map dps (st_groups (assignTanksHeals pool g st)) = map dps (st_groups st)"
  using assms
proof (induction pool g st rule: assignTanksHeals.induct)
  case (1 pool g st)
  let ?gs = "st_groups st"
  show ?case
  proof (cases "g < length ?gs")
    case False
    then have "assignTanksHeals pool g st = st" by (subst assignTanksHeals.simps) simp
    with "1.prems" show ?thesis by simp
  next
    case True
    obtain ot r1 where pt: "pick ''TANK'' pool (st_used st) (st_rng st) = (ot, r1)"
      by (cases "pick ''TANK'' pool (st_used st) (st_rng st)")
    show ?thesis
    proof (cases ot)
      case None
      with True pt have "assignTanksHeals pool g st = st\<lparr>st_rng := r1\<rparr>"
        by (subst assignTanksHeals.simps) simp
      with "1.prems" show ?thesis by simp
    next
      case (Some t)
      define used1 where "used1 = setAdd (player_id t) (st_used st)"
      define groups1 where "groups1 = ?gs[g := (?gs ! g)\<lparr>tank := Some t\<rparr>]"
      from pt Some have t: "t \<in> set pool" "''TANK'' \<in> set (player_roles t)"
        "player_id t \<notin> set (st_used st)"
        using pick_Some [of "''TANK''" pool "st_used st" "st_rng st" t r1] by simp_all
      from "1.prems"(2) True have none: "tank (?gs ! g) = None" "heal (?gs ! g) = None" by simp_all
      have ok0: "list_all groupRolesOk ?gs" using "1.prems"(1) by (simp add: attemptInv_def)
      then have "groupRolesOk (?gs ! g)" using True by (simp add: list_all_length)
      then have "groupRolesOk ((?gs ! g)\<lparr>tank := Some t\<rparr>)" using t(2) by (simp add: groupRolesOk_def)
      with ok0 have ok1: "list_all groupRolesOk groups1"
        unfolding groups1_def by (rule list_all_update)
      have inv1: "attemptInv pool used1 groups1"
        unfolding used1_def
        by (rule attemptInv_add [OF "1.prems"(1) t(1) t(3) _ ok1])
           (simp add: groups1_def placed_set_tank [OF True none(1)])
      have len1: "length groups1 = length ?gs" by (simp add: groups1_def)
      have dps1: "map dps groups1 = map dps ?gs"
        using True by (simp add: groups1_def map_update_same)
      have g1: "groups1 ! g = (?gs ! g)\<lparr>tank := Some t\<rparr>" using True by (simp add: groups1_def)
      obtain oh r2 where ph: "pick ''HEAL'' pool used1 r1 = (oh, r2)"
        by (cases "pick ''HEAL'' pool used1 r1")
      show ?thesis
      proof (cases oh)
        case None
        with True pt Some ph
        have "assignTanksHeals pool g st = \<lparr>st_used = used1, st_groups = groups1, st_rng = r2\<rparr>"
          by (subst assignTanksHeals.simps) (simp add: used1_def groups1_def Let_def)
        with inv1 len1 dps1 show ?thesis by simp
      next
        case (Some h)
        define st2 where "st2 = \<lparr>st_used = setAdd (player_id h) used1,
                        st_groups = groups1[g := (groups1 ! g)\<lparr>heal := Some h\<rparr>],
                        st_rng = r2\<rparr>"
        from ph Some have h: "h \<in> set pool" "''HEAL'' \<in> set (player_roles h)"
          "player_id h \<notin> set used1"
          using pick_Some [of "''HEAL''" pool used1 r1 h r2] by simp_all
        have g1len: "g < length groups1" using True len1 by simp
        have hnone: "heal (groups1 ! g) = None" using g1 none(2) by simp
        have "groupRolesOk (groups1 ! g)" using ok1 g1len by (simp add: list_all_length)
        then have "groupRolesOk ((groups1 ! g)\<lparr>heal := Some h\<rparr>)"
          using h(2) by (simp add: groupRolesOk_def)
        with ok1 have ok2: "list_all groupRolesOk (st_groups st2)"
          unfolding st2_def by (simp add: list_all_update)
        have inv2: "attemptInv pool (st_used st2) (st_groups st2)"
          unfolding st2_def
          using attemptInv_add [OF inv1 h(1) h(3) _ ok2 [unfolded st2_def, simplified]]
            placed_set_heal [OF g1len hnone, of h]
          by simp
        have len2: "length (st_groups st2) = length ?gs" by (simp add: st2_def len1)
        have dps2: "map dps (st_groups st2) = map dps ?gs"
          using g1len dps1 by (simp add: st2_def map_update_same)
        have rest: "\<forall>i. g + 1 \<le> i \<and> i < length (st_groups st2) \<longrightarrow>
           tank (st_groups st2 ! i) = None \<and> heal (st_groups st2 ! i) = None"
          using "1.prems"(2) True by (simp add: st2_def groups1_def)
        have eq: "assignTanksHeals pool g st = assignTanksHeals pool (g + 1) st2"
          using True pt \<open>ot = Some t\<close> ph Some
          by (subst assignTanksHeals.simps) (simp add: used1_def groups1_def st2_def Let_def)
        have ih: "attemptInv pool (st_used (assignTanksHeals pool (g + 1) st2))
                    (st_groups (assignTanksHeals pool (g + 1) st2))
              \<and> length (st_groups (assignTanksHeals pool (g + 1) st2)) = length (st_groups st2)
              \<and> map dps (st_groups (assignTanksHeals pool (g + 1) st2)) = map dps (st_groups st2)"
          using "1.IH" [OF True pt [symmetric] \<open>ot = Some t\<close> used1_def groups1_def ph [symmetric] Some,
              folded st2_def, OF inv2 rest] .
        with eq len2 dps2 show ?thesis by simp
      qed
    qed
  qed
qed

subsection \<open>The DPS search\<close>

definition dpsShape :: "nat \<Rightarrow> nat \<Rightarrow> solver_group list \<Rightarrow> bool" where
  "dpsShape gi si gs =
     (\<forall>i < length gs. length (dps (gs ! i)) = (if i < gi then 3 else if i = gi then si else 0))"

definition filled :: "player list \<Rightarrow> nat \<Rightarrow> solver_state \<Rightarrow> solver_state \<Rightarrow> bool" where
  "filled pool n st st' =
     (attemptInv pool (st_used st') (st_groups st')
      \<and> length (st_groups st') = n
      \<and> (\<forall>i < n. length (dps (st_groups st' ! i)) = 3)
      \<and> map tank (st_groups st') = map tank (st_groups st)
      \<and> map heal (st_groups st') = map heal (st_groups st))"

lemma tryEach_rule:
  assumes "I s"
    and "\<And>x u ok u'. x \<in> set xs \<Longrightarrow> I u \<Longrightarrow> body x u = (ok, u') \<Longrightarrow> (if ok then Q u' else I u')"
    and "tryEach body xs s = (ok, s')"
  shows "if ok then Q s' else I s'"
  using assms
proof (induction xs arbitrary: s)
  case Nil
  then show ?case by simp
next
  case (Cons x xs)
  obtain b u where bu: "body x s = (b, u)" by (cases "body x s")
  have st: "if b then Q u else I u" using Cons.prems(2) [of x s b u] Cons.prems(1) bu by simp
  show ?case
  proof (cases b)
    case True
    with bu Cons.prems(3) st show ?thesis by simp
  next
    case False
    with bu Cons.prems(3) have t: "tryEach body xs u = (ok, s')" by simp
    from False st have "I u" by simp
    show ?thesis
    proof (rule Cons.IH [OF \<open>I u\<close> _ t])
      fix y v b w
      assume "y \<in> set xs" "I v" "body y v = (b, w)"
      then show "if b then Q w else I w" using Cons.prems(2) [of y v b w] by simp
    qed
  qed
qed

lemma place_fields:
  "st_used (place gi p s) = setAdd (player_id p) (st_used s)"
  "st_groups (place gi p s) = (st_groups s)[gi := (st_groups s ! gi)\<lparr>dps := dps (st_groups s ! gi) @ [p]\<rparr>]"
  by (simp_all add: place_def)

lemma unplace_place:
  assumes "gi < length (st_groups s)" "player_id p \<notin> set (st_used s)"
    "st_used s2 = st_used (place gi p s)" "st_groups s2 = st_groups (place gi p s)"
  shows "st_used (unplace gi p s2) = st_used s \<and> st_groups (unplace gi p s2) = st_groups s"
  using assms by (simp add: unplace_def place_fields setDelete_setAdd list_update_same_conv)

lemma place_inv:
  assumes inv: "attemptInv pool (st_used s) (st_groups s)"
    and gi: "gi < length (st_groups s)"
    and p: "p \<in> set pool" "player_id p \<notin> set (st_used s)" "''DPS'' \<in> set (player_roles p)"
  shows "attemptInv pool (st_used (place gi p s)) (st_groups (place gi p s))"
proof -
  let ?gs = "st_groups s"
  have ok0: "list_all groupRolesOk ?gs" using inv by (simp add: attemptInv_def)
  then have "groupRolesOk (?gs ! gi)" using gi by (simp add: list_all_length)
  then have "groupRolesOk ((?gs ! gi)\<lparr>dps := dps (?gs ! gi) @ [p]\<rparr>)"
    using p(3) by (simp add: groupRolesOk_def)
  with ok0 have ok1: "list_all groupRolesOk (st_groups (place gi p s))"
    by (simp add: place_fields list_all_update)
  show ?thesis
    using attemptInv_add [OF inv p(1) p(2) _ ok1] placed_push [OF gi, of p]
    by (simp add: place_fields)
qed

lemma place_shape:
  assumes "dpsShape gi si (st_groups s)" "gi < length (st_groups s)"
  shows "dpsShape gi (si + 1) (st_groups (place gi p s))"
  using assms by (auto simp: dpsShape_def place_fields nth_list_update)

lemma place_tank_heal:
  assumes "gi < length (st_groups s)"
  shows "map tank (st_groups (place gi p s)) = map tank (st_groups s)"
    and "map heal (st_groups (place gi p s)) = map heal (st_groups s)"
    and "length (st_groups (place gi p s)) = length (st_groups s)"
  using assms by (simp_all add: place_fields map_update_same)

lemma fillDps_spec:
  assumes "set dc \<subseteq> set pool" "\<forall>p \<in> set dc. ''DPS'' \<in> set (player_roles p)"
    and "attemptInv pool (st_used st) (st_groups st)" "length (st_groups st) = n"
    and "si \<le> 3" "dpsShape gi si (st_groups st)"
    and "fillDps dc n gi si st = (ok, st')"
  shows "if ok then filled pool n st st'
         else st_used st' = st_used st \<and> st_groups st' = st_groups st"
  using assms
proof (induction dc n gi si st arbitrary: ok st' rule: fillDps.induct)
  case (1 dc n gi si st)
  show ?case
  proof (cases "n \<le> gi")
    case True
    with "1.prems"(7) have "ok" "st' = st" by (simp_all add: fillDps.simps)
    moreover have "\<forall>i < n. length (dps (st_groups st ! i)) = 3"
      using "1.prems"(4,6) True by (auto simp: dpsShape_def)
    ultimately show ?thesis using "1.prems"(3,4) by (simp add: filled_def)
  next
    case False
    then have gi: "gi < length (st_groups st)" using "1.prems"(4) by simp
    show ?thesis
    proof (cases "3 \<le> si")
      case True
      with "1.prems"(5) have si: "si = 3" by simp
      have sh: "dpsShape (gi + 1) 0 (st_groups st)"
        using "1.prems"(6) si by (auto simp: dpsShape_def)
      have eq: "fillDps dc n (gi + 1) 0 st = (ok, st')"
        using "1.prems"(7) False True by (subst (asm) fillDps.simps) simp
      show ?thesis
        by (rule "1.IH"(1) [OF False True "1.prems"(1,2,3,4) _ sh eq]) simp
    next
      case si: False
      let ?top = "fst (shuffledTop dc st)"
      let ?body = "\<lambda>p s. case fillDps dc n gi (si + 1) (place gi p s) of
                    (ok, s2) \<Rightarrow> if ok then (True, s2) else (False, unplace gi p s2)"
      let ?I = "\<lambda>u. st_used u = st_used st \<and> st_groups u = st_groups st"
      have run: "tryEach ?body ?top (st\<lparr>st_rng := snd (shuffledTop dc st)\<rparr>) = (ok, st')"
        using "1.prems"(7) False si by (subst (asm) fillDps.simps) simp
      have I0: "?I (st\<lparr>st_rng := snd (shuffledTop dc st)\<rparr>)" by simp
      have step: "if b then filled pool n st u' else ?I u'"
        if x: "x \<in> set ?top" and Iu: "?I u" and bd: "?body x u = (b, u')" for x u b u'
      proof -
        from x set_shuffledTop [of dc st] have xdc: "x \<in> set dc"
          and xu: "player_id x \<notin> set (st_used u)" using Iu by auto
        from xdc "1.prems"(1,2) have xp: "x \<in> set pool" "''DPS'' \<in> set (player_roles x)" by auto
        have giu: "gi < length (st_groups u)" using gi Iu by simp
        have invu: "attemptInv pool (st_used u) (st_groups u)" using "1.prems"(3) Iu by simp
        have inv1: "attemptInv pool (st_used (place gi x u)) (st_groups (place gi x u))"
          by (rule place_inv [OF invu giu xp(1) xu xp(2)])
        have len1: "length (st_groups (place gi x u)) = n"
          using place_tank_heal(3) [OF giu] Iu "1.prems"(4) by simp
        have sh1: "dpsShape gi (si + 1) (st_groups (place gi x u))"
          using place_shape [OF _ giu, of si x] "1.prems"(6) Iu by simp
        obtain b2 s2 where r: "fillDps dc n gi (si + 1) (place gi x u) = (b2, s2)"
          by (cases "fillDps dc n gi (si + 1) (place gi x u)")
        have ih: "if b2 then filled pool n (place gi x u) s2
                  else st_used s2 = st_used (place gi x u) \<and> st_groups s2 = st_groups (place gi x u)"
          using "1.IH"(2) [OF False si x "1.prems"(1,2) inv1 len1 _ sh1 r] si by simp
        show ?thesis
        proof (cases b2)
          case True
          with r bd have "b" "u' = s2" by simp_all
          moreover have "filled pool n st s2"
            using ih True place_tank_heal(1,2) [OF giu, of x] Iu by (simp add: filled_def)
          ultimately show ?thesis by simp
        next
          case False
          with r bd have "\<not> b" "u' = unplace gi x s2" by simp_all
          moreover have "?I (unplace gi x s2)"
            using unplace_place [OF giu xu, of s2] ih False Iu by simp
          ultimately show ?thesis by simp
        qed
      qed
      show ?thesis
        by (rule tryEach_rule [where I = ?I and Q = "filled pool n st", OF I0 step run])
    qed
  qed
qed

subsection \<open>A completed attempt\<close>

definition groupComplete :: "solver_group \<Rightarrow> bool" where
  "groupComplete g = (tank g \<noteq> None \<and> heal g \<noteq> None \<and> length (dps g) = 3)"

lemma placed_replicate_empty: "placed (replicate n emptyGroup) = []"
  by (induction n) (simp_all add: placed_def groupPlayers_def emptyGroup_def)

lemma groupRolesOk_emptyGroup: "groupRolesOk emptyGroup"
  by (simp add: groupRolesOk_def emptyGroup_def)

lemma attemptInv_initial: "attemptInv pool [] (replicate n emptyGroup)"
  by (simp add: attemptInv_def placed_replicate_empty list_all_iff groupRolesOk_emptyGroup)

lemma length_placed_complete:
  "list_all groupComplete gs \<Longrightarrow> length (placed gs) = 5 * length gs"
  by (induction gs) (auto simp: placed_def groupPlayers_def groupComplete_def)

lemma attemptInv_length_used:
  assumes "attemptInv pool u gs"
  shows "length u = length (placed gs)"
proof -
  from assms have d: "distinct u" "distinct (map player_id (placed gs))"
    and s: "set u = set (map player_id (placed gs))"
    by (simp_all add: attemptInv_def)
  have "length u = card (set u)" using distinct_card [OF d(1)] by simp
  also have "\<dots> = card (set (map player_id (placed gs)))" using s by simp
  also have "\<dots> = length (map player_id (placed gs))" by (rule distinct_card [OF d(2)])
  finally show ?thesis by simp
qed

text \<open>With pairwise distinct ids in the pool, the placed players and the bench together
  are the pool.\<close>
lemma attemptInv_bench:
  assumes inv: "attemptInv pool u gs" and dp: "distinct (map player_id pool)"
  shows "mset (placed gs @ filter (\<lambda>p. player_id p \<notin> set u) pool) = mset pool"
proof -
  from inv have sub: "set (placed gs) \<subseteq> set pool" and d: "distinct (map player_id (placed gs))"
    and u: "set u = player_id ` set (placed gs)"
    by (simp_all add: attemptInv_def)
  have inj: "inj_on player_id (set pool)" using dp by (simp add: distinct_map)
  have dpool: "distinct pool" using dp by (simp add: distinct_map)
  have dpl: "distinct (placed gs)" using d by (simp add: distinct_map)
  have seteq: "set (filter (\<lambda>p. player_id p \<in> set u) pool) = set (placed gs)"
  proof (rule set_eqI)
    fix p
    show "p \<in> set (filter (\<lambda>p. player_id p \<in> set u) pool) \<longleftrightarrow> p \<in> set (placed gs)"
    proof
      assume "p \<in> set (filter (\<lambda>p. player_id p \<in> set u) pool)"
      then have pp: "p \<in> set pool" and "player_id p \<in> player_id ` set (placed gs)"
        using u by simp_all
      then obtain q where q: "q \<in> set (placed gs)" "player_id p = player_id q" by auto
      with sub have "q \<in> set pool" by auto
      with inj pp q(2) have "p = q" by (simp add: inj_on_def)
      with q(1) show "p \<in> set (placed gs)" by simp
    next
      assume "p \<in> set (placed gs)"
      with sub u show "p \<in> set (filter (\<lambda>p. player_id p \<in> set u) pool)" by auto
    qed
  qed
  have dfil: "distinct (filter (\<lambda>p. player_id p \<in> set u) pool)" using dpool by simp
  have m1: "mset (placed gs) = mset (filter (\<lambda>p. player_id p \<in> set u) pool)"
    using set_eq_iff_mset_eq_distinct [OF dpl dfil] seteq by blast
  have m2: "mset (filter (\<lambda>p. player_id p \<in> set u) pool)
              + mset (filter (\<lambda>p. player_id p \<notin> set u) pool) = mset pool"
    by (induction pool) simp_all
  show ?thesis using m1 m2 by simp
qed

lemma attempt_unfold:
  assumes "attemptTanksHeals players target r = (pool, st1)"
    and "fillDps (filter (\<lambda>p. ''DPS'' \<in> set (player_roles p)) pool) (length (st_groups st1)) 0 0 st1
           = (ok, st2)"
  shows "attempt players target r =
           (if \<not> tanksHealsAssigned st1 then (None, st_rng st1)
            else if \<not> ok then (None, st_rng st2)
            else (Some (length (st_used st2), st_groups st2,
                        filter (\<lambda>p. player_id p \<notin> set (st_used st2)) pool), st_rng st2))"
  using assms by (simp add: attempt_def Let_def)

lemma attempt_spec:
  assumes a: "attempt players target r = (Some (score, gs, bn), r')"
  shows "length gs = target \<and> list_all groupComplete gs \<and> list_all groupRolesOk gs
       \<and> set (placed gs) \<subseteq> set players \<and> score = 5 * target
       \<and> (distinct (map player_id players) \<longrightarrow> mset (placed gs @ bn) = mset players)"
proof -
  obtain pool r1 where sh: "shuffle players r = (pool, r1)" by (cases "shuffle players r")
  have mp: "mset pool = mset players" using mset_shuffle [of players r] sh by simp
  define st0 where "st0 = \<lparr>st_used = [], st_groups = replicate target emptyGroup, st_rng = r1\<rparr>"
  define st1 where "st1 = assignTanksHeals pool 0 st0"
  have ath: "attemptTanksHeals players target r = (pool, st1)"
    by (simp add: attemptTanksHeals_def sh st0_def st1_def)
  have inv0: "attemptInv pool (st_used st0) (st_groups st0)"
    by (simp add: st0_def attemptInv_initial)
  have none0: "\<forall>i. 0 \<le> i \<and> i < length (st_groups st0) \<longrightarrow>
           tank (st_groups st0 ! i) = None \<and> heal (st_groups st0 ! i) = None"
    by (simp add: st0_def emptyGroup_def)
  from assignTanksHeals_inv [OF inv0 none0]
  have inv1: "attemptInv pool (st_used st1) (st_groups st1)"
    and len1: "length (st_groups st1) = target"
    and dps1: "map dps (st_groups st1) = map dps (st_groups st0)"
    by (simp_all add: st1_def st0_def)
  have "\<forall>i < length (st_groups st1). dps (st_groups st1 ! i) = []"
  proof (intro allI impI)
    fix i assume i: "i < length (st_groups st1)"
    then have "dps (st_groups st1 ! i) = map dps (st_groups st1) ! i" by simp
    also have "\<dots> = map dps (st_groups st0) ! i" using dps1 by simp
    also have "\<dots> = []" using i len1 by (simp add: st0_def emptyGroup_def)
    finally show "dps (st_groups st1 ! i) = []" .
  qed
  then have sh1: "dpsShape 0 0 (st_groups st1)" by (simp add: dpsShape_def)
  define dc where "dc = filter (\<lambda>p. ''DPS'' \<in> set (player_roles p)) pool"
  obtain ok st2 where fd: "fillDps dc (length (st_groups st1)) 0 0 st1 = (ok, st2)"
    by (cases "fillDps dc (length (st_groups st1)) 0 0 st1")
  have a': "(if \<not> tanksHealsAssigned st1 then (None, st_rng st1)
             else if \<not> ok then (None, st_rng st2)
             else (Some (length (st_used st2), st_groups st2,
                         filter (\<lambda>p. player_id p \<notin> set (st_used st2)) pool), st_rng st2))
            = (Some (score, gs, bn), r')"
    using a attempt_unfold [OF ath fd [unfolded dc_def]] by simp
  have th: "tanksHealsAssigned st1" using a' by (cases "tanksHealsAssigned st1") simp_all
  have ok: "ok" using a' th by (cases ok) simp_all
  have res: "score = length (st_used st2)" "gs = st_groups st2"
      "bn = filter (\<lambda>p. player_id p \<notin> set (st_used st2)) pool"
    using a' th ok by simp_all
  have dcsub: "set dc \<subseteq> set pool" and dcroles: "\<forall>p \<in> set dc. ''DPS'' \<in> set (player_roles p)"
    by (simp_all add: dc_def)
  have fd': "fillDps dc target 0 0 st1 = (ok, st2)" using fd len1 by simp
  have "if ok then filled pool target st1 st2
        else st_used st2 = st_used st1 \<and> st_groups st2 = st_groups st1"
    by (rule fillDps_spec [OF dcsub dcroles inv1 len1 _ sh1 fd']) simp
  with ok have f: "filled pool target st1 st2" by simp
  then have inv2: "attemptInv pool (st_used st2) (st_groups st2)"
    and len2: "length (st_groups st2) = target"
    and three: "\<forall>i < target. length (dps (st_groups st2 ! i)) = 3"
    and tk: "map tank (st_groups st2) = map tank (st_groups st1)"
    and hl: "map heal (st_groups st2) = map heal (st_groups st1)"
    by (simp_all add: filled_def)
  have th1: "\<forall>i < target. tank (st_groups st1 ! i) \<noteq> None \<and> heal (st_groups st1 ! i) \<noteq> None"
    using th len1 by (auto simp: tanksHealsAssigned_def list_ex_iff)
  have comp: "list_all groupComplete (st_groups st2)"
    unfolding list_all_length groupComplete_def
  proof (intro allI impI)
    fix i assume i: "i < length (st_groups st2)"
    have "tank (st_groups st2 ! i) = map tank (st_groups st2) ! i" using i by simp
    also have "\<dots> = tank (st_groups st1 ! i)" using tk i len1 len2 by simp
    finally have t: "tank (st_groups st2 ! i) \<noteq> None" using th1 i len2 by simp
    have "heal (st_groups st2 ! i) = map heal (st_groups st2) ! i" using i by simp
    also have "\<dots> = heal (st_groups st1 ! i)" using hl i len1 len2 by simp
    finally have h: "heal (st_groups st2 ! i) \<noteq> None" using th1 i len2 by simp
    from t h three i len2
    show "tank (st_groups st2 ! i) \<noteq> None \<and> heal (st_groups st2 ! i) \<noteq> None
          \<and> length (dps (st_groups st2 ! i)) = 3" by simp
  qed
  have sc: "score = 5 * target"
    using attemptInv_length_used [OF inv2] length_placed_complete [OF comp] res(1) len2 by simp
  have sub: "set (placed gs) \<subseteq> set players"
    using inv2 mset_eq_setD [OF mp] res(2) by (simp add: attemptInv_def)
  have ms: "mset (placed gs @ bn) = mset players" if "distinct (map player_id players)"
  proof -
    have "mset (map player_id pool) = mset (map player_id players)" using mp by simp
    then have "distinct (map player_id pool) = distinct (map player_id players)"
      by (rule mset_eq_imp_distinct_iff)
    with that have "distinct (map player_id pool)" by simp
    from attemptInv_bench [OF inv2 this] mp res(2,3) show ?thesis by simp
  qed
  from len2 comp inv2 sub sc ms res(2) show ?thesis by (simp add: attemptInv_def)
qed

section \<open>The attempt loop and the result of the solver\<close>

text \<open>
  The random source at the start of the \<open>j\<close>-th iteration of the attempt loop, and the
  outcome of that iteration's attempt (\<open>None\<close> when the attempt is given up). The loop
  threads the random source through every attempt, completed or not.
\<close>

primrec attemptRng :: "player list \<Rightarrow> nat \<Rightarrow> rng \<Rightarrow> nat \<Rightarrow> rng" where
  "attemptRng players target r 0 = r"
| "attemptRng players target r (Suc j) =
     snd (attempt players target (attemptRng players target r j))"

definition nthAttempt :: "player list \<Rightarrow> nat \<Rightarrow> rng \<Rightarrow> nat \<Rightarrow> best option" where
  "nthAttempt players target r j = fst (attempt players target (attemptRng players target r j))"

definition eligibleCount :: "string \<Rightarrow> signups \<Rightarrow> nat" where
  "eligibleCount role su = length (filter (\<lambda>(uid, info). role \<in> set (roles info)) su)"

lemma attemptRng_shift:
  "attemptRng players target r (Suc j) = attemptRng players target (snd (attempt players target r)) j"
  by (induction j) simp_all

lemma nthAttempt_0: "nthAttempt players target r 0 = fst (attempt players target r)"
  by (simp add: nthAttempt_def)

lemma nthAttempt_Suc:
  "nthAttempt players target r (Suc j) = nthAttempt players target (snd (attempt players target r)) j"
  unfolding nthAttempt_def attemptRng_shift ..

lemma attemptsLoop_Some:
  "attemptsLoop players target k best r = Some b \<Longrightarrow>
   best = Some b \<or> (\<exists>r0. fst (attempt players target r0) = Some b)"
proof (induction k arbitrary: best r)
  case 0
  then show ?case by simp
next
  case (Suc k)
  obtain res r' where a: "attempt players target r = (res, r')" by (cases "attempt players target r")
  show ?case
  proof (cases res)
    case None
    with a Suc.prems have "attemptsLoop players target k best r' = Some b" by simp
    from Suc.IH [OF this] show ?thesis .
  next
    case (Some sgb)
    obtain score gs bn where sgb: "sgb = (score, gs, bn)" by (cases sgb)
    have here: "fst (attempt players target r) = Some sgb" using a Some by simp
    from Suc.prems a Some sgb
    have "b = sgb \<or> attemptsLoop players target k (Some sgb) r' = Some b
          \<or> attemptsLoop players target k best r' = Some b"
      by (auto split: if_splits)
    then show ?thesis using Suc.IH here by blast
  qed
qed

lemma attemptsLoop_keeps_best: "attemptsLoop players target k (Some bst) r \<noteq> None"
proof (induction k arbitrary: bst r)
  case 0
  show ?case by simp
next
  case (Suc k)
  obtain res r' where a: "attempt players target r = (res, r')" by (cases "attempt players target r")
  show ?case
  proof (cases res)
    case None
    with a Suc.IH [of bst r'] show ?thesis by simp
  next
    case (Some sgb)
    obtain score gs bn where sgb: "sgb = (score, gs, bn)" by (cases sgb)
    from a Some sgb Suc.IH [of bst r'] Suc.IH [of sgb r'] show ?thesis by simp
  qed
qed

lemma attemptsLoop_None_iff:
  "attemptsLoop players target k None r = None \<longleftrightarrow> (\<forall>j < k. nthAttempt players target r j = None)"
proof (induction k arbitrary: r)
  case 0
  then show ?case by simp
next
  case (Suc k)
  obtain res r' where a: "attempt players target r = (res, r')" by (cases "attempt players target r")
  show ?case
  proof (cases res)
    case None
    have "(\<forall>j < Suc k. nthAttempt players target r j = None)
          \<longleftrightarrow> (\<forall>j < k. nthAttempt players target r' j = None)"
    proof
      assume h: "\<forall>j < Suc k. nthAttempt players target r j = None"
      show "\<forall>j < k. nthAttempt players target r' j = None"
      proof (intro allI impI)
        fix j assume "j < k"
        then have "nthAttempt players target r (Suc j) = None" using h by simp
        then show "nthAttempt players target r' j = None" using a by (simp add: nthAttempt_Suc)
      qed
    next
      assume h: "\<forall>j < k. nthAttempt players target r' j = None"
      show "\<forall>j < Suc k. nthAttempt players target r j = None"
      proof (intro allI impI)
        fix j assume j: "j < Suc k"
        show "nthAttempt players target r j = None"
        proof (cases j)
          case 0
          then show ?thesis using a None by (simp add: nthAttempt_0)
        next
          case (Suc j')
          with j h a show ?thesis by (simp add: nthAttempt_Suc)
        qed
      qed
    qed
    moreover have "attemptsLoop players target (Suc k) None r = attemptsLoop players target k None r'"
      using a None by simp
    ultimately show ?thesis using Suc.IH [of r'] by simp
  next
    case (Some sgb)
    obtain score gs bn where sgb: "sgb = (score, gs, bn)" by (cases sgb)
    have "attemptsLoop players target (Suc k) None r \<noteq> None"
    proof (cases "score = target * 5")
      case True
      with a Some sgb show ?thesis by simp
    next
      case False
      with a Some sgb have e: "attemptsLoop players target (Suc k) None r
            = attemptsLoop players target k (Some sgb) r'" by simp
      show ?thesis
      proof
        assume "attemptsLoop players target (Suc k) None r = None"
        with e have n: "attemptsLoop players target k (Some sgb) r' = None" by simp
        with n attemptsLoop_keeps_best [of players target k sgb r'] show False by blast
      qed
    qed
    moreover have "nthAttempt players target r 0 \<noteq> None" using a Some by (simp add: nthAttempt_0)
    ultimately show ?thesis by auto
  qed
qed

lemma attemptsLoop_first:
  assumes "j < k" "nthAttempt players target r j = Some b" "\<forall>i < j. nthAttempt players target r i = None"
  shows "attemptsLoop players target k None r = Some b"
  using assms
proof (induction k arbitrary: r j)
  case 0
  then show ?case by simp
next
  case (Suc k)
  obtain res r' where a: "attempt players target r = (res, r')" by (cases "attempt players target r")
  show ?case
  proof (cases res)
    case None
    then have n0: "nthAttempt players target r 0 = None" using a by (simp add: nthAttempt_0)
    with Suc.prems(2) obtain j' where j': "j = Suc j'" by (cases j) simp_all
    have 1: "j' < k" using Suc.prems(1) j' by simp
    have 2: "nthAttempt players target r' j' = Some b"
      using Suc.prems(2) j' a by (simp add: nthAttempt_Suc)
    have 3: "\<forall>i < j'. nthAttempt players target r' i = None"
    proof (intro allI impI)
      fix i assume "i < j'"
      then have "nthAttempt players target r (Suc i) = None" using Suc.prems(3) j' by simp
      then show "nthAttempt players target r' i = None" using a by (simp add: nthAttempt_Suc)
    qed
    have "attemptsLoop players target (Suc k) None r = attemptsLoop players target k None r'"
      using a None by simp
    with Suc.IH [OF 1 2 3] show ?thesis by simp
  next
    case (Some sgb)
    then have s0: "nthAttempt players target r 0 = Some sgb" using a by (simp add: nthAttempt_0)
    have "j = 0"
    proof (rule ccontr)
      assume "j \<noteq> 0"
      then have "nthAttempt players target r 0 = None" using Suc.prems(3) by simp
      with s0 show False by simp
    qed
    with Suc.prems(2) s0 have b: "b = sgb" by simp
    obtain score gs bn where sgb: "sgb = (score, gs, bn)" by (cases sgb)
    have "score = 5 * target" using attempt_spec [of players target r score gs bn r'] a Some sgb by simp
    with a Some sgb b show ?thesis by simp
  qed
qed

subsection \<open>The participants of a draft\<close>

text \<open>
  The slots of a draft in the order in which \<^verbatim>\<open>findPlayerInDraft\<close> visits them, the players
  in them, and their ids.
\<close>

fun occupants :: "player option list \<Rightarrow> player list" where
  "occupants [] = []"
| "occupants (None # xs) = occupants xs"
| "occupants (Some p # xs) = p # occupants xs"

definition groupSlots :: "draft_group \<Rightarrow> player option list" where
  "groupSlots g = [slot_tank g, slot_heal g, dps1 g, dps2 g, dps3 g]"

definition draftSlots :: "draft \<Rightarrow> player option list" where
  "draftSlots d = concat (map groupSlots (draft_groups d)) @ draft_bench d"

definition draftIds :: "draft \<Rightarrow> string list" where
  "draftIds d = map player_id (occupants (draftSlots d))"

lemma occupants_append: "occupants (xs @ ys) = occupants xs @ occupants ys"
  by (induction xs rule: occupants.induct) simp_all

lemma occupants_map_Some: "occupants (map Some xs) = xs"
  by (induction xs) simp_all

lemma length3E:
  assumes "length xs = 3"
  obtains a b c where "xs = [a, b, c]"
proof -
  from assms obtain a ys where 1: "xs = a # ys" "length ys = 2" by (cases xs) auto
  then obtain b zs where 2: "ys = b # zs" "length zs = 1" by (cases ys) auto
  then obtain c where "zs = [c]" by (cases zs) auto
  with 1 2 that show ?thesis by simp
qed

lemma occupants_complete_group:
  assumes "groupComplete g"
  shows "occupants (groupSlots (draftGroup g)) = groupPlayers g"
proof -
  from assms obtain t h where th: "tank g = Some t" "heal g = Some h"
    and l: "length (dps g) = 3" by (auto simp: groupComplete_def)
  from l obtain a b c where "dps g = [a, b, c]" by (rule length3E)
  with th show ?thesis by (simp add: groupSlots_def groupPlayers_def nthOpt_def draftGroup_def)
qed

lemma draftPlayers_result:
  assumes "list_all groupComplete (groups res)"
  shows "occupants (draftSlots (draftFromResult now res)) = placed (groups res) @ bench res"
proof -
  have "list_all groupComplete gs \<Longrightarrow>
        occupants (concat (map groupSlots (map draftGroup gs))) = placed gs" for gs
    by (induction gs) (simp_all add: occupants_append occupants_complete_group placed_Cons placed_def)
  with assms show ?thesis
    by (simp add: draftSlots_def draftFromResult_def occupants_append occupants_map_Some)
qed

lemma player_id_playersOf: "map player_id (playersOf su) = map fst su"
  by (induction su) (auto simp: playersOf_def)

lemma countRole_playersOf: "countRole role (playersOf su) = eligibleCount role su"
  by (induction su) (auto simp: playersOf_def countRole_def eligibleCount_def)

lemma length_playersOf: "length (playersOf su) = length su"
  by (simp add: playersOf_def)

lemma targetGroups_le: "targetGroups players desired \<le> maxByCounts players"
  by (simp add: targetGroups_def split: option.splits)

lemma rollGroups_no_target:
  "targetGroups (playersOf su) desired \<le> 0 \<Longrightarrow>
   rollGroups su desired attempts r =
     \<lparr>groups = [], bench = playersOf su,
      reason = Some (CannotFormAnyFullGroups (countRole ''TANK'' (playersOf su))
                 (countRole ''HEAL'' (playersOf su)) (countRole ''DPS'' (playersOf su))
                 (length (playersOf su)))\<rparr>"
  by (simp add: rollGroups_def Let_def)

lemma rollGroups_target:
  "0 < targetGroups (playersOf su) desired \<Longrightarrow>
   rollGroups su desired attempts r =
     (case attemptsLoop (playersOf su) (nat (targetGroups (playersOf su) desired)) (nat attempts) None r of
        None \<Rightarrow> \<lparr>groups = [], bench = playersOf su, reason = Some (TriedSolves attempts)\<rparr>
      | Some (score, gs, bn) \<Rightarrow> \<lparr>groups = gs, bench = bn, reason = None\<rparr>)"
  by (simp add: rollGroups_def Let_def)

lemma rollGroups_success:
  assumes "reason (rollGroups su desired attempts r) = None"
  shows "0 < targetGroups (playersOf su) desired
       \<and> (\<exists>r0 score. fst (attempt (playersOf su) (nat (targetGroups (playersOf su) desired)) r0)
             = Some (score, groups (rollGroups su desired attempts r),
                            bench (rollGroups su desired attempts r)))"
proof -
  let ?tg = "targetGroups (playersOf su) desired"
  have pos: "0 < ?tg"
  proof (rule ccontr)
    assume "\<not> 0 < ?tg"
    then have "?tg \<le> 0" by simp
    from rollGroups_no_target [OF this, of attempts r] assms show False by simp
  qed
  let ?loop = "attemptsLoop (playersOf su) (nat ?tg) (nat attempts) None r"
  show ?thesis
  proof (cases ?loop)
    case None
    with rollGroups_target [OF pos, of attempts r] assms show ?thesis by simp
  next
    case (Some b)
    obtain score gs bn where b: "b = (score, gs, bn)" by (cases b)
    from attemptsLoop_Some [OF Some] obtain r0
      where "fst (attempt (playersOf su) (nat ?tg) r0) = Some b" by auto
    with rollGroups_target [OF pos, of attempts r] Some b pos show ?thesis by auto
  qed
qed

lemma rollGroups_success_spec:
  assumes "reason (rollGroups su desired attempts r) = None"
  shows "int (length (groups (rollGroups su desired attempts r))) = targetGroups (playersOf su) desired
       \<and> list_all groupComplete (groups (rollGroups su desired attempts r))
       \<and> list_all groupRolesOk (groups (rollGroups su desired attempts r))
       \<and> set (placed (groups (rollGroups su desired attempts r))) \<subseteq> set (playersOf su)
       \<and> (distinct (map fst su) \<longrightarrow>
            mset (placed (groups (rollGroups su desired attempts r))
                  @ bench (rollGroups su desired attempts r)) = mset (playersOf su))"
proof -
  let ?res = "rollGroups su desired attempts r"
  from rollGroups_success [OF assms] obtain r0 score
    where pos: "0 < targetGroups (playersOf su) desired"
      and a: "fst (attempt (playersOf su) (nat (targetGroups (playersOf su) desired)) r0)
               = Some (score, groups ?res, bench ?res)" by blast
  obtain r1 where "attempt (playersOf su) (nat (targetGroups (playersOf su) desired)) r0
               = (Some (score, groups ?res, bench ?res), r1)"
    using a by (cases "attempt (playersOf su) (nat (targetGroups (playersOf su) desired)) r0") simp
  from attempt_spec [OF this] pos show ?thesis by (simp add: player_id_playersOf)
qed

section \<open>Properties of the solver\<close>

definition rosterFive :: signups where
  "rosterFive =
     [(''a'', \<lparr>roles = [''TANK''], displayName = ''Ann'', classes = None\<rparr>),
      (''b'', \<lparr>roles = [''HEAL''], displayName = ''Bob'', classes = None\<rparr>),
      (''c'', \<lparr>roles = [''DPS''], displayName = ''Cy'', classes = None\<rparr>),
      (''d'', \<lparr>roles = [''DPS''], displayName = ''Dee'', classes = None\<rparr>),
      (''e'', \<lparr>roles = [''DPS''], displayName = ''Eve'', classes = None\<rparr>)]"

definition rosterTight :: signups where
  "rosterTight =
     [(''p1'', \<lparr>roles = [''TANK'', ''DPS''], displayName = ''P1'', classes = None\<rparr>),
      (''p2'', \<lparr>roles = [''HEAL'', ''DPS''], displayName = ''P2'', classes = None\<rparr>),
      (''p3'', \<lparr>roles = [''DPS''], displayName = ''P3'', classes = None\<rparr>),
      (''p4'', \<lparr>roles = [], displayName = ''P4'', classes = None\<rparr>),
      (''p5'', \<lparr>roles = [], displayName = ''P5'', classes = None\<rparr>)]"

text \<open>
  Claim C1. For a signup object (keys pairwise distinct) and a run of the solver that
  succeeds (\<^verbatim>\<open>reason\<close> is \<^verbatim>\<open>null\<close>), the participant ids in the draft built from the
  result, over the tank, healer and three DPS slots of every group and the bench, are
  pairwise distinct, and they are exactly the ids of the signups. This holds for every
  desired count, attempt budget and random source.
\<close>

theorem solver_no_duplication:
  assumes "distinct (map fst su)"
    and "reason (rollGroups su desired attempts r) = None"
  shows "distinct (draftIds (draftFromResult now (rollGroups su desired attempts r)))
       \<and> set (draftIds (draftFromResult now (rollGroups su desired attempts r))) = set (map fst su)"
proof -
  let ?res = "rollGroups su desired attempts r"
  from rollGroups_success_spec [OF assms(2)] assms(1)
  have c: "list_all groupComplete (groups ?res)"
    and m: "mset (placed (groups ?res) @ bench ?res) = mset (playersOf su)" by simp_all
  have "draftIds (draftFromResult now ?res) = map player_id (placed (groups ?res) @ bench ?res)"
    by (simp add: draftIds_def draftPlayers_result [OF c])
  moreover have "mset (map player_id (placed (groups ?res) @ bench ?res)) = mset (map fst su)"
    using m player_id_playersOf [of su] by (metis mset_map)
  ultimately have e: "mset (draftIds (draftFromResult now ?res)) = mset (map fst su)" by simp
  from mset_eq_imp_distinct_iff [OF e] mset_eq_setD [OF e] assms(1) show ?thesis by simp
qed

theorem solver_no_duplication_witness:
  "distinct (map fst rosterFive) \<and> reason (rollGroups rosterFive None 200 [3, 1, 4]) = None
   \<and> distinct (draftIds (draftFromResult 0 (rollGroups rosterFive None 200 [3, 1, 4])))
   \<and> set (draftIds (draftFromResult 0 (rollGroups rosterFive None 200 [3, 1, 4])))
       = {''a'', ''b'', ''c'', ''d'', ''e''}"
proof -
  have d: "distinct (map fst rosterFive)" by (simp add: rosterFive_def)
  have s: "reason (rollGroups rosterFive None 200 [3, 1, 4]) = None" by code_simp
  have k: "set (map fst rosterFive) = {''a'', ''b'', ''c'', ''d'', ''e''}"
    by (simp add: rosterFive_def)
  from solver_no_duplication [OF d s, of 0] d s k show ?thesis by simp
qed

text \<open>
  Claim C2. For every signup object, desired group count, attempt budget and random
  source, the number of groups in the result of \<^verbatim>\<open>rollGroups\<close> is at most the minimum of
  the number of TANK-eligible participants, the number of HEAL-eligible participants, the
  number of DPS-eligible participants divided by three (rounded down) and the number of
  participants divided by five (rounded down).
\<close>

theorem solver_group_count_ceiling:
  "int (length (groups (rollGroups su desired attempts r)))
     \<le> min (min (min (int (eligibleCount ''TANK'' su)) (int (eligibleCount ''HEAL'' su)))
                  (int (eligibleCount ''DPS'' su) div 3))
             (int (length su) div 5)"
proof -
  let ?res = "rollGroups su desired attempts r"
  have mx: "maxByCounts (playersOf su)
      = min (min (min (int (eligibleCount ''TANK'' su)) (int (eligibleCount ''HEAL'' su)))
                  (int (eligibleCount ''DPS'' su) div 3))
             (int (length su) div 5)"
    by (simp add: maxByCounts_def countRole_playersOf length_playersOf)
  have nonneg: "0 \<le> maxByCounts (playersOf su)"
    by (simp add: maxByCounts_def pos_imp_zdiv_nonneg_iff)
  have "int (length (groups ?res)) \<le> maxByCounts (playersOf su)"
  proof (cases "reason ?res")
    case None
    from rollGroups_success_spec [OF None]
    have "int (length (groups ?res)) = targetGroups (playersOf su) desired" by simp
    with targetGroups_le [of "playersOf su" desired] show ?thesis by simp
  next
    case (Some why)
    have "groups ?res = []"
    proof (cases "targetGroups (playersOf su) desired \<le> 0")
      case True
      from rollGroups_no_target [OF True, of attempts r] show ?thesis by simp
    next
      case False
      then have pos: "0 < targetGroups (playersOf su) desired" by simp
      from rollGroups_target [OF pos, of attempts r] Some show ?thesis
        by (auto split: option.splits)
    qed
    with nonneg show ?thesis by simp
  qed
  with mx show ?thesis by simp
qed

theorem solver_group_count_ceiling_witness:
  "length (groups (rollGroups rosterFive (Some 3) 200 [3, 1, 4])) = 1
   \<and> min (min (min (int (eligibleCount ''TANK'' rosterFive)) (int (eligibleCount ''HEAL'' rosterFive)))
                  (int (eligibleCount ''DPS'' rosterFive) div 3))
             (int (length rosterFive) div 5) = 1"
proof -
  have a: "length (groups (rollGroups rosterFive (Some 3) 200 [3, 1, 4])) = 1" by code_simp
  have b: "eligibleCount ''TANK'' rosterFive = 1" "eligibleCount ''HEAL'' rosterFive = 1"
    "eligibleCount ''DPS'' rosterFive = 3" "length rosterFive = 5"
    by (simp_all add: eligibleCount_def rosterFive_def)
  from solver_group_count_ceiling [of rosterFive "Some 3" 200 "[3, 1, 4]"] a b show ?thesis by simp
qed

lemma playersOf_entry:
  "p \<in> set (playersOf su) \<Longrightarrow>
   \<exists>info. (player_id p, info) \<in> set su \<and> set (player_roles p) = set (roles info)"
  by (auto simp: playersOf_def)

lemma groupPlayers_subset_placed: "g \<in> set gs \<Longrightarrow> set (groupPlayers g) \<subseteq> set (placed gs)"
  by (auto simp: placed_def)

text \<open>
  Claim C8. In every successful result of the solver, each group has a tank whose role
  set contains TANK, a healer whose role set contains HEAL, and exactly three DPS
  occupants whose role sets contain DPS; every occupant has a signup entry under its id,
  and the role is among the roles of that entry.
\<close>

theorem solver_roles_respected:
  assumes "reason (rollGroups su desired attempts r) = None"
  shows "\<forall>g \<in> set (groups (rollGroups su desired attempts r)).
           (\<exists>t info. tank g = Some t \<and> ''TANK'' \<in> set (player_roles t)
                     \<and> (player_id t, info) \<in> set su \<and> ''TANK'' \<in> set (roles info))
         \<and> (\<exists>h info. heal g = Some h \<and> ''HEAL'' \<in> set (player_roles h)
                     \<and> (player_id h, info) \<in> set su \<and> ''HEAL'' \<in> set (roles info))
         \<and> length (dps g) = 3
         \<and> (\<forall>p \<in> set (dps g). ''DPS'' \<in> set (player_roles p)
                \<and> (\<exists>info. (player_id p, info) \<in> set su \<and> ''DPS'' \<in> set (roles info)))"
proof
  fix g
  let ?res = "rollGroups su desired attempts r"
  assume g: "g \<in> set (groups ?res)"
  from rollGroups_success_spec [OF assms]
  have c: "list_all groupComplete (groups ?res)" and ok: "list_all groupRolesOk (groups ?res)"
    and sub: "set (placed (groups ?res)) \<subseteq> set (playersOf su)" by simp_all
  from c g have gc: "groupComplete g" by (simp add: list_all_iff)
  from ok g have gr: "groupRolesOk g" by (simp add: list_all_iff)
  from groupPlayers_subset_placed [OF g] sub have gp: "set (groupPlayers g) \<subseteq> set (playersOf su)"
    by simp
  from gc obtain t h where th: "tank g = Some t" "heal g = Some h" and l: "length (dps g) = 3"
    by (auto simp: groupComplete_def)
  from gp th have mem: "t \<in> set (playersOf su)" "h \<in> set (playersOf su)"
    "set (dps g) \<subseteq> set (playersOf su)" by (simp_all add: groupPlayers_def)
  from gr th have rl: "''TANK'' \<in> set (player_roles t)" "''HEAL'' \<in> set (player_roles h)"
    "\<forall>p \<in> set (dps g). ''DPS'' \<in> set (player_roles p)"
    by (simp_all add: groupRolesOk_def list_all_iff)
  have entry: "\<exists>info. (player_id p, info) \<in> set su \<and> role \<in> set (roles info)"
    if "p \<in> set (playersOf su)" "role \<in> set (player_roles p)" for p role
    using playersOf_entry [OF that(1)] that(2) by auto
  from entry [OF mem(1) rl(1)] th(1) rl(1)
  have a: "\<exists>t info. tank g = Some t \<and> ''TANK'' \<in> set (player_roles t)
                     \<and> (player_id t, info) \<in> set su \<and> ''TANK'' \<in> set (roles info)" by blast
  from entry [OF mem(2) rl(2)] th(2) rl(2)
  have b: "\<exists>h info. heal g = Some h \<and> ''HEAL'' \<in> set (player_roles h)
                     \<and> (player_id h, info) \<in> set su \<and> ''HEAL'' \<in> set (roles info)" by blast
  have d: "\<forall>p \<in> set (dps g). ''DPS'' \<in> set (player_roles p)
                \<and> (\<exists>info. (player_id p, info) \<in> set su \<and> ''DPS'' \<in> set (roles info))"
  proof
    fix p assume p: "p \<in> set (dps g)"
    with mem(3) have "p \<in> set (playersOf su)" by auto
    moreover from p rl(3) have "''DPS'' \<in> set (player_roles p)" by simp
    ultimately show "''DPS'' \<in> set (player_roles p)
                \<and> (\<exists>info. (player_id p, info) \<in> set su \<and> ''DPS'' \<in> set (roles info))"
      using entry [of p "''DPS''"] by simp
  qed
  from a b l d
  show "(\<exists>t info. tank g = Some t \<and> ''TANK'' \<in> set (player_roles t)
                     \<and> (player_id t, info) \<in> set su \<and> ''TANK'' \<in> set (roles info))
         \<and> (\<exists>h info. heal g = Some h \<and> ''HEAL'' \<in> set (player_roles h)
                     \<and> (player_id h, info) \<in> set su \<and> ''HEAL'' \<in> set (roles info))
         \<and> length (dps g) = 3
         \<and> (\<forall>p \<in> set (dps g). ''DPS'' \<in> set (player_roles p)
                \<and> (\<exists>info. (player_id p, info) \<in> set su \<and> ''DPS'' \<in> set (roles info)))"
    by blast
qed

theorem solver_roles_respected_witness:
  "reason (rollGroups rosterFive None 200 [2, 7, 1]) = None
   \<and> map (\<lambda>g. (map_option player_id (tank g), map_option player_id (heal g), map player_id (dps g)))
        (groups (rollGroups rosterFive None 200 [2, 7, 1])) = [(Some ''a'', Some ''b'', [''d'', ''c'', ''e''])]
   \<and> list_all (\<lambda>g. (case tank g of None \<Rightarrow> False | Some t \<Rightarrow> ''TANK'' \<in> set (player_roles t))
                  \<and> (case heal g of None \<Rightarrow> False | Some h \<Rightarrow> ''HEAL'' \<in> set (player_roles h))
                  \<and> list_all (\<lambda>p. ''DPS'' \<in> set (player_roles p)) (dps g))
        (groups (rollGroups rosterFive None 200 [2, 7, 1]))"
proof -
  have s: "reason (rollGroups rosterFive None 200 [2, 7, 1]) = None" by code_simp
  have v: "map (\<lambda>g. (map_option player_id (tank g), map_option player_id (heal g), map player_id (dps g)))
        (groups (rollGroups rosterFive None 200 [2, 7, 1])) = [(Some ''a'', Some ''b'', [''d'', ''c'', ''e''])]"
    by code_simp
  from solver_roles_respected [OF s] s v show ?thesis
    by (auto simp: list_all_iff)
qed

text \<open>
  Claim C3, as amended. The effective target is \<open>min desired maxGroups\<close> when a desired
  count is given and is not zero, and \<open>maxGroups\<close> otherwise: the test
  \<^verbatim>\<open>desiredGroups ? ... : ...\<close> treats a desired count of 0 like a missing one. Whenever
  the effective target is at most 0, \<^verbatim>\<open>rollGroups\<close> returns no group, the diagnostic with
  the four counts (tanks, healers, DPS, players) and the whole roster as bench, whatever the
  attempt budget and the random source. In particular a roster without a HEAL-eligible
  participant gets this result for every desired count.
\<close>

theorem no_target_no_solution:
  "targetGroups (playersOf su) desired =
     (let m = min (min (min (int (eligibleCount ''TANK'' su)) (int (eligibleCount ''HEAL'' su)))
                       (int (eligibleCount ''DPS'' su) div 3))
                  (int (length su) div 5)
      in case desired of None \<Rightarrow> m | Some d \<Rightarrow> if d = 0 then m else min d m)
   \<and> (targetGroups (playersOf su) desired \<le> 0 \<longrightarrow>
        rollGroups su desired attempts r =
          \<lparr>groups = [], bench = playersOf su,
           reason = Some (CannotFormAnyFullGroups (eligibleCount ''TANK'' su)
                      (eligibleCount ''HEAL'' su) (eligibleCount ''DPS'' su) (length su))\<rparr>
        \<and> map player_id (playersOf su) = map fst su)
   \<and> (eligibleCount ''HEAL'' su = 0 \<longrightarrow> targetGroups (playersOf su) desired \<le> 0)"
proof -
  have mx: "maxByCounts (playersOf su)
      = min (min (min (int (eligibleCount ''TANK'' su)) (int (eligibleCount ''HEAL'' su)))
                  (int (eligibleCount ''DPS'' su) div 3))
             (int (length su) div 5)"
    by (simp add: maxByCounts_def countRole_playersOf length_playersOf)
  have 1: "targetGroups (playersOf su) desired =
     (let m = min (min (min (int (eligibleCount ''TANK'' su)) (int (eligibleCount ''HEAL'' su)))
                       (int (eligibleCount ''DPS'' su) div 3))
                  (int (length su) div 5)
      in case desired of None \<Rightarrow> m | Some d \<Rightarrow> if d = 0 then m else min d m)"
    unfolding mx [symmetric] by (simp add: targetGroups_def truthy_def Let_def split: option.splits)
  have 2: "rollGroups su desired attempts r =
          \<lparr>groups = [], bench = playersOf su,
           reason = Some (CannotFormAnyFullGroups (eligibleCount ''TANK'' su)
                      (eligibleCount ''HEAL'' su) (eligibleCount ''DPS'' su) (length su))\<rparr>"
    if "targetGroups (playersOf su) desired \<le> 0"
    using rollGroups_no_target [OF that, of attempts r]
    by (simp add: countRole_playersOf length_playersOf)
  have 3: "targetGroups (playersOf su) desired \<le> 0" if "eligibleCount ''HEAL'' su = 0"
  proof -
    have "maxByCounts (playersOf su) \<le> 0" using that unfolding mx by simp
    with targetGroups_le [of "playersOf su" desired] show ?thesis by simp
  qed
  from 1 2 3 player_id_playersOf [of su] show ?thesis by blast
qed

definition rosterNoHealer :: signups where
  "rosterNoHealer =
     [(''a'', \<lparr>roles = [''TANK''], displayName = ''Ann'', classes = None\<rparr>),
      (''c'', \<lparr>roles = [''DPS''], displayName = ''Cy'', classes = None\<rparr>),
      (''d'', \<lparr>roles = [''DPS'', ''TANK''], displayName = ''Dee'', classes = None\<rparr>),
      (''e'', \<lparr>roles = [''DPS''], displayName = ''Eve'', classes = None\<rparr>),
      (''f'', \<lparr>roles = [''DPS''], displayName = '''', classes = None\<rparr>)]"

theorem no_target_no_solution_witness:
  "eligibleCount ''HEAL'' rosterNoHealer = 0
   \<and> targetGroups (playersOf rosterNoHealer) (Some 2) \<le> 0
   \<and> rollGroups rosterNoHealer (Some 2) 50 [1, 2] =
          \<lparr>groups = [], bench = playersOf rosterNoHealer,
           reason = Some (CannotFormAnyFullGroups 2 0 4 5)\<rparr>
   \<and> map player_id (playersOf rosterNoHealer) = [''a'', ''c'', ''d'', ''e'', ''f'']"
proof -
  have c: "eligibleCount ''TANK'' rosterNoHealer = 2" "eligibleCount ''HEAL'' rosterNoHealer = 0"
    "eligibleCount ''DPS'' rosterNoHealer = 4" "length rosterNoHealer = 5"
    "map fst rosterNoHealer = [''a'', ''c'', ''d'', ''e'', ''f'']"
    by (simp_all add: eligibleCount_def rosterNoHealer_def)
  from no_target_no_solution [of rosterNoHealer "Some 2" 50 "[1, 2]"] c show ?thesis by simp
qed

theorem desired_zero_counterexample:
  "min 0 (min (min (min (int (eligibleCount ''TANK'' rosterFive)) (int (eligibleCount ''HEAL'' rosterFive)))
                       (int (eligibleCount ''DPS'' rosterFive) div 3))
                  (int (length rosterFive) div 5)) \<le> 0
   \<and> reason (rollGroups rosterFive (Some 0) 200 []) = None
   \<and> map (\<lambda>g. (map_option player_id (tank g), map_option player_id (heal g), map player_id (dps g)))
        (groups (rollGroups rosterFive (Some 0) 200 [])) = [(Some ''a'', Some ''b'', [''d'', ''e'', ''c''])]
   \<and> bench (rollGroups rosterFive (Some 0) 200 []) = []"
proof -
  have 1: "reason (rollGroups rosterFive (Some 0) 200 []) = None" by code_simp
  have 2: "map (\<lambda>g. (map_option player_id (tank g), map_option player_id (heal g), map player_id (dps g)))
        (groups (rollGroups rosterFive (Some 0) 200 [])) = [(Some ''a'', Some ''b'', [''d'', ''e'', ''c''])]"
    by code_simp
  have 3: "bench (rollGroups rosterFive (Some 0) 200 []) = []" by code_simp
  from 1 2 3 show ?thesis by simp
qed

lemma attempt_None_iff:
  "fst (attempt players target r) = None \<longleftrightarrow>
     (let (pool, st1) = attemptTanksHeals players target r
      in \<not> tanksHealsAssigned st1
         \<or> \<not> fst (fillDps (filter (\<lambda>p. ''DPS'' \<in> set (player_roles p)) pool)
                     (length (st_groups st1)) 0 0 st1))"
  by (simp add: attempt_def Let_def split: prod.splits)

text \<open>
  Claim C4, as amended. With a positive effective target, \<^verbatim>\<open>rollGroups\<close> returns the
  budget-exhausted result (no group, the whole roster as bench, the diagnostic citing the
  attempt budget) if and only if none of the attempts of the budget was completed, where an
  attempt is completed when every group got a tank and a healer and the search filled all
  three DPS slots of every group (\<open>attempt_None_iff\<close>). Otherwise it returns the groups and
  the bench of the first completed attempt, which no later attempt could beat: a completed
  attempt always scores five times the target.
\<close>

theorem exhausted_iff_no_completed_attempt:
  assumes "0 < targetGroups (playersOf su) desired"
  shows "(rollGroups su desired attempts r =
            \<lparr>groups = [], bench = playersOf su, reason = Some (TriedSolves attempts)\<rparr>)
         = (\<forall>j < nat attempts.
              nthAttempt (playersOf su) (nat (targetGroups (playersOf su) desired)) r j = None)
       \<and> (\<forall>j score gs bn.
            j < nat attempts
            \<and> nthAttempt (playersOf su) (nat (targetGroups (playersOf su) desired)) r j
                = Some (score, gs, bn)
            \<and> (\<forall>i < j. nthAttempt (playersOf su) (nat (targetGroups (playersOf su) desired)) r i = None)
            \<longrightarrow> rollGroups su desired attempts r = \<lparr>groups = gs, bench = bn, reason = None\<rparr>
                \<and> score = 5 * nat (targetGroups (playersOf su) desired))"
proof -
  let ?p = "playersOf su"
  let ?t = "nat (targetGroups ?p desired)"
  let ?loop = "attemptsLoop ?p ?t (nat attempts) None r"
  note rg = rollGroups_target [OF assms, of attempts r]
  have a: "(rollGroups su desired attempts r =
            \<lparr>groups = [], bench = ?p, reason = Some (TriedSolves attempts)\<rparr>)
         = (\<forall>j < nat attempts. nthAttempt ?p ?t r j = None)"
  proof (cases ?loop)
    case None
    with rg attemptsLoop_None_iff [of ?p ?t "nat attempts" r] show ?thesis by simp
  next
    case (Some b)
    obtain sc gs bn where "b = (sc, gs, bn)" by (cases b)
    with Some rg have "reason (rollGroups su desired attempts r) = None" by simp
    then have "rollGroups su desired attempts r \<noteq>
            \<lparr>groups = [], bench = ?p, reason = Some (TriedSolves attempts)\<rparr>" by auto
    moreover have "\<not> (\<forall>j < nat attempts. nthAttempt ?p ?t r j = None)"
      using Some attemptsLoop_None_iff [of ?p ?t "nat attempts" r] by simp
    ultimately show ?thesis by simp
  qed
  have b: "rollGroups su desired attempts r = \<lparr>groups = gs, bench = bn, reason = None\<rparr>
           \<and> score = 5 * ?t"
    if h: "j < nat attempts" "nthAttempt ?p ?t r j = Some (score, gs, bn)"
      "\<forall>i < j. nthAttempt ?p ?t r i = None" for j score gs bn
  proof -
    from attemptsLoop_first [OF h] rg
    have 1: "rollGroups su desired attempts r = \<lparr>groups = gs, bench = bn, reason = None\<rparr>" by simp
    obtain r1 where "attempt ?p ?t (attemptRng ?p ?t r j) = (Some (score, gs, bn), r1)"
      using h(2) by (cases "attempt ?p ?t (attemptRng ?p ?t r j)") (simp add: nthAttempt_def)
    from attempt_spec [OF this] have "score = 5 * ?t" by simp
    with 1 show ?thesis by simp
  qed
  from a b show ?thesis by blast
qed

theorem exhausted_iff_no_completed_attempt_witness:
  "0 < targetGroups (playersOf rosterFive) None
   \<and> nthAttempt (playersOf rosterFive) 1 [2, 7, 1] 0 \<noteq> None
   \<and> reason (rollGroups rosterFive None 200 [2, 7, 1]) = None
   \<and> 0 < targetGroups (playersOf rosterTight) None
   \<and> nthAttempt (playersOf rosterTight) 1 [] 0 = None
   \<and> nthAttempt (playersOf rosterTight) 1 [] 1 = None
   \<and> nthAttempt (playersOf rosterTight) 1 [] 2 = None
   \<and> rollGroups rosterTight None 3 [] =
        \<lparr>groups = [], bench = playersOf rosterTight, reason = Some (TriedSolves 3)\<rparr>"
proof -
  have t5: "targetGroups (playersOf rosterFive) None = 1" by code_simp
  have tt: "targetGroups (playersOf rosterTight) None = 1" by code_simp
  have p5: "0 < targetGroups (playersOf rosterFive) None" using t5 by simp
  have pt: "0 < targetGroups (playersOf rosterTight) None" using tt by simp
  have s: "reason (rollGroups rosterFive None 200 [2, 7, 1]) = None" by code_simp
  have e: "rollGroups rosterTight None 3 [] =
        \<lparr>groups = [], bench = playersOf rosterTight, reason = Some (TriedSolves 3)\<rparr>" by code_simp
  have n: "nthAttempt (playersOf rosterFive) 1 [2, 7, 1] 0 \<noteq> None" by code_simp
  from exhausted_iff_no_completed_attempt [OF pt, of 3 "[]"] e tt
  have a: "\<forall>j < 3. nthAttempt (playersOf rosterTight) 1 [] j = None" by simp
  have "nthAttempt (playersOf rosterTight) 1 [] 0 = None"
    "nthAttempt (playersOf rosterTight) 1 [] 1 = None"
    "nthAttempt (playersOf rosterTight) 1 [] 2 = None"
    using a by simp_all
  with p5 pt s e n show ?thesis by simp
qed

theorem tank_heal_assigned_counterexample:
  "targetGroups (playersOf rosterTight) None = 1
   \<and> tanksHealsAssigned (snd (attemptTanksHeals (playersOf rosterTight) 1 []))
   \<and> rollGroups rosterTight None 1 [] =
        \<lparr>groups = [], bench = playersOf rosterTight, reason = Some (TriedSolves 1)\<rparr>"
proof -
  have 1: "targetGroups (playersOf rosterTight) None = 1" by code_simp
  have 2: "tanksHealsAssigned (snd (attemptTanksHeals (playersOf rosterTight) 1 []))" by code_simp
  have 3: "rollGroups rosterTight None 1 [] =
        \<lparr>groups = [], bench = playersOf rosterTight, reason = Some (TriedSolves 1)\<rparr>" by code_simp
  from 1 2 3 show ?thesis by simp
qed

section \<open>Draft editing: locating and swapping players\<close>

text \<open>
  The five slot names of a group, and where \<^verbatim>\<open>findPlayerInDraft\<close> found a player:
  \<^verbatim>\<open>{ where: 'group', gi, slot }\<close> or \<^verbatim>\<open>{ where: 'bench', bi }\<close>.
\<close>

datatype slot = Tank | Heal | Dps1 | Dps2 | Dps3

datatype location = InGroup nat slot | InBench nat

definition slotNames :: "slot list" where
  "slotNames = [Tank, Heal, Dps1, Dps2, Dps3]"

fun getSlot :: "draft_group \<Rightarrow> slot \<Rightarrow> player option" where
  "getSlot g Tank = slot_tank g"
| "getSlot g Heal = slot_heal g"
| "getSlot g Dps1 = dps1 g"
| "getSlot g Dps2 = dps2 g"
| "getSlot g Dps3 = dps3 g"

fun setSlot :: "draft_group \<Rightarrow> slot \<Rightarrow> player option \<Rightarrow> draft_group" where
  "setSlot g Tank v = g\<lparr>slot_tank := v\<rparr>"
| "setSlot g Heal v = g\<lparr>slot_heal := v\<rparr>"
| "setSlot g Dps1 v = g\<lparr>dps1 := v\<rparr>"
| "setSlot g Dps2 v = g\<lparr>dps2 := v\<rparr>"
| "setSlot g Dps3 v = g\<lparr>dps3 := v\<rparr>"

text \<open>\<^verbatim>\<open>findPlayerInDraft\<close> (lines 1191-1202): the inner loop over the slot names, the outer
  loop over the groups from index \<open>gi\<close> on, and the loop over the bench from index \<open>bi\<close> on.
  \<^verbatim>\<open>g[slot]?.id === userId\<close> is false for an empty slot.\<close>

fun findSlot :: "draft_group \<Rightarrow> string \<Rightarrow> slot list \<Rightarrow> slot option" where
  "findSlot g userId [] = None"
| "findSlot g userId (sl # rest) =
     (case getSlot g sl of
        Some p \<Rightarrow> if player_id p = userId then Some sl else findSlot g userId rest
      | None \<Rightarrow> findSlot g userId rest)"

fun findInGroups :: "draft_group list \<Rightarrow> nat \<Rightarrow> string \<Rightarrow> location option" where
  "findInGroups [] gi userId = None"
| "findInGroups (g # gs) gi userId =
     (case findSlot g userId slotNames of
        Some sl \<Rightarrow> Some (InGroup gi sl)
      | None \<Rightarrow> findInGroups gs (Suc gi) userId)"

fun findInBench :: "player option list \<Rightarrow> nat \<Rightarrow> string \<Rightarrow> location option" where
  "findInBench [] bi userId = None"
| "findInBench (x # xs) bi userId =
     (case x of
        Some p \<Rightarrow> if player_id p = userId then Some (InBench bi) else findInBench xs (Suc bi) userId
      | None \<Rightarrow> findInBench xs (Suc bi) userId)"

definition findPlayerInDraft :: "draft \<Rightarrow> string \<Rightarrow> location option" where
  "findPlayerInDraft d userId =
     (case findInGroups (draft_groups d) 0 userId of
        Some loc \<Rightarrow> Some loc
      | None \<Rightarrow> findInBench (draft_bench d) 0 userId)"

text \<open>\<^verbatim>\<open>roleAllowedForSlot(player, slot)\<close> (lines 1204-1211); the slot names starting with
  \<^verbatim>\<open>dps\<close> are the three DPS slots.\<close>

fun roleAllowedForSlot :: "player option \<Rightarrow> slot \<Rightarrow> bool" where
  "roleAllowedForSlot None sl = True"
| "roleAllowedForSlot (Some p) Tank = (''TANK'' \<in> set (newSet (player_roles p)))"
| "roleAllowedForSlot (Some p) Heal = (''HEAL'' \<in> set (newSet (player_roles p)))"
| "roleAllowedForSlot (Some p) sl = (''DPS'' \<in> set (newSet (player_roles p)))"

text \<open>
  \<^verbatim>\<open>getRef\<close> (lines 1384-1387) names a container and a key; \<open>readRef\<close> is
  \<^verbatim>\<open>ref.container[ref.key]\<close> and \<open>writeRef\<close> is the assignment to it. A location returned by
  \<^verbatim>\<open>findPlayerInDraft\<close> is always inside the draft; outside, reading yields nothing and
  writing changes nothing.
\<close>

definition readRef :: "draft \<Rightarrow> location \<Rightarrow> player option" where
  "readRef d loc =
     (case loc of
        InBench bi \<Rightarrow> if bi < length (draft_bench d) then draft_bench d ! bi else None
      | InGroup gi sl \<Rightarrow>
          if gi < length (draft_groups d) then getSlot (draft_groups d ! gi) sl else None)"

definition writeRef :: "draft \<Rightarrow> location \<Rightarrow> player option \<Rightarrow> draft" where
  "writeRef d loc v =
     (case loc of
        InBench bi \<Rightarrow> d\<lparr>draft_bench := (draft_bench d)[bi := v]\<rparr>
      | InGroup gi sl \<Rightarrow>
          d\<lparr>draft_groups := (draft_groups d)[gi := setSlot (draft_groups d ! gi) sl v]\<rparr>)"

text \<open>\<^verbatim>\<open>(bRef.slotName === 'bench') ? true : roleAllowedForSlot(aPlayer, bRef.slotName)\<close>.\<close>

definition roleOkAt :: "player option \<Rightarrow> location \<Rightarrow> bool" where
  "roleOkAt p loc = (case loc of InBench bi \<Rightarrow> True | InGroup gi sl \<Rightarrow> roleAllowedForSlot p sl)"

text \<open>\<^verbatim>\<open>hydrateDraftClassesFromSignups\<close> (lines 859-877): every player reference of the
  draft whose signup has a \<^verbatim>\<open>classes\<close> object gets that object.\<close>

definition attach :: "signups \<Rightarrow> player \<Rightarrow> player" where
  "attach su p =
     (case map_of su (player_id p) of
        None \<Rightarrow> p
      | Some info \<Rightarrow> (case classes info of None \<Rightarrow> p | Some c \<Rightarrow> p\<lparr>player_classes := c\<rparr>))"

definition hydrateGroup :: "signups \<Rightarrow> draft_group \<Rightarrow> draft_group" where
  "hydrateGroup su g =
     \<lparr>slot_tank = map_option (attach su) (slot_tank g),
      slot_heal = map_option (attach su) (slot_heal g),
      dps1 = map_option (attach su) (dps1 g),
      dps2 = map_option (attach su) (dps2 g),
      dps3 = map_option (attach su) (dps3 g)\<rparr>"

definition hydrateDraftClassesFromSignups :: "signups \<Rightarrow> draft \<Rightarrow> draft" where
  "hydrateDraftClassesFromSignups su d =
     d\<lparr>draft_groups := map (hydrateGroup su) (draft_groups d),
       draft_bench := map (map_option (attach su)) (draft_bench d)\<rparr>"

text \<open>The swap command of the second variant (lines 1359-1424), on the current session.\<close>

definition swapHandler :: "session \<Rightarrow> string \<Rightarrow> string \<Rightarrow> bool \<Rightarrow> reply \<times> session" where
  "swapHandler s aId bId force =
     (case lastDraft s of
        None \<Rightarrow> (NoDraftYet, s)
      | Some d \<Rightarrow>
          (case findPlayerInDraft d aId of
             None \<Rightarrow> (NotInDraft, s)
           | Some aLoc \<Rightarrow>
               (case findPlayerInDraft d bId of
                  None \<Rightarrow> (NotInDraft, s)
                | Some bLoc \<Rightarrow>
                    let aPlayer = readRef d aLoc;
                        bPlayer = readRef d bLoc
                    in if \<not> force \<and> (\<not> roleOkAt aPlayer bLoc \<or> \<not> roleOkAt bPlayer aLoc)
                       then (RoleMismatch, s)
                       else
                         let d1 = writeRef d aLoc bPlayer;
                             d2 = writeRef d1 bLoc aPlayer;
                             d3 = hydrateDraftClassesFromSignups (signups s) d2
                         in (Swapped, s\<lparr>lastDraft := Some d3\<rparr>))))"

text \<open>The preview and roll commands (lines 1335-1357 and 1497-1510);
  \<^verbatim>\<open>getInteger('attempts') || 200\<close>. The roll command replies with the result and stores
  nothing.\<close>

definition attemptsOrDefault :: "int option \<Rightarrow> int" where
  "attemptsOrDefault a = (case a of None \<Rightarrow> 200 | Some n \<Rightarrow> if n = 0 then 200 else n)"

definition previewHandler ::
  "int \<Rightarrow> session \<Rightarrow> int option \<Rightarrow> int option \<Rightarrow> rng \<Rightarrow> reply \<times> session" where
  "previewHandler now s groupsWanted attemptsOpt r =
     (let res = rollGroups (signups s) groupsWanted (attemptsOrDefault attemptsOpt) r;
          d = draftFromResult now res
      in (PreviewDraft, s\<lparr>lastDraft := Some d\<rparr>))"

definition rollHandler :: "session \<Rightarrow> int option \<Rightarrow> int option \<Rightarrow> rng \<Rightarrow> result \<times> session" where
  "rollHandler s groupsWanted attemptsOpt r =
     (rollGroups (signups s) groupsWanted (attemptsOrDefault attemptsOpt) r, s)"

section \<open>Properties of the lock and of the swap\<close>

text \<open>The role a slot asks for.\<close>

definition slotRole :: "slot \<Rightarrow> string" where
  "slotRole sl = (case sl of Tank \<Rightarrow> ''TANK'' | Heal \<Rightarrow> ''HEAL'' | _ \<Rightarrow> ''DPS'')"

lemma roleAllowedForSlot_Some:
  "roleAllowedForSlot (Some p) sl = (slotRole sl \<in> set (player_roles p))"
  by (cases sl) (simp_all add: slotRole_def)

lemma swapHandler_lockAt:
  "swapHandler (s\<lparr>lockAt := l\<rparr>) a b f
     = (fst (swapHandler s a b f), (snd (swapHandler s a b f))\<lparr>lockAt := l\<rparr>)"
  by (simp add: swapHandler_def Let_def split: option.splits)

lemma previewHandler_lockAt:
  "previewHandler now (s\<lparr>lockAt := l\<rparr>) gw at r
     = (fst (previewHandler now s gw at r), (snd (previewHandler now s gw at r))\<lparr>lockAt := l\<rparr>)"
  by (simp add: previewHandler_def Let_def)

lemma rollHandler_lockAt:
  "rollHandler (s\<lparr>lockAt := l\<rparr>) gw at r
     = (fst (rollHandler s gw at r), (snd (rollHandler s gw at r))\<lparr>lockAt := l\<rparr>)"
  by (simp add: rollHandler_def)

lemma isLocked_iff: "isLocked now s \<longleftrightarrow> (\<exists>t. lockAt s = Some t \<and> t \<noteq> 0 \<and> t \<le> now)"
  by (cases "lockAt s") (simp_all add: isLocked_def truthy_def)

subsection \<open>Sample sessions\<close>

definition mkPlayer :: "string \<Rightarrow> string list \<Rightarrow> player" where
  "mkPlayer uid rs = \<lparr>player_id = uid, name = uid, player_roles = rs, player_classes = []\<rparr>"

definition demoDraft :: draft where
  "demoDraft =
     \<lparr>draft_createdAt = 50,
      draft_groups =
        [\<lparr>slot_tank = Some (mkPlayer ''x'' [''DPS'']),
          slot_heal = Some (mkPlayer ''b'' [''HEAL'']),
          dps1 = Some (mkPlayer ''c'' [''DPS'']),
          dps2 = Some (mkPlayer ''d'' [''DPS'']),
          dps3 = Some (mkPlayer ''e'' [''DPS''])\<rparr>],
      draft_bench = [Some (mkPlayer ''a'' [''TANK'']), Some (mkPlayer ''g'' [''DPS''])]\<rparr>"

definition swapSession :: session where
  "swapSession =
     \<lparr>session_id = ''s-2'', title = ''Keys'', description = [], lockAt = Some 100,
      signups =
        [(''x'', \<lparr>roles = [''DPS''], displayName = ''x'',
                 classes = Some [(''TANK'', None), (''HEAL'', None), (''DPS'', Some ''MAGE'')]\<rparr>),
         (''a'', \<lparr>roles = [''TANK''], displayName = ''a'', classes = None\<rparr>)],
      createdAt = 1, lastDraft = Some demoDraft\<rparr>"

definition zeroLockSession :: session where
  "zeroLockSession = demoSession\<lparr>lockAt := Some 0\<rparr>"

text \<open>
  Claim C5, as amended. Once the lock deadline of a session is set to a time other than 0
  and the current time is at or past it, the button handler of either variant (role toggle,
  leave and any other action) and the class selection reply that signups are locked and
  store the session they were given. A deadline of 0 counts as not set: the guard is
  \<^verbatim>\<open>session.lockAt && Date.now() >= session.lockAt\<close>. The swap, preview and roll commands
  never read the deadline: under any other deadline \<open>l\<close> they give the same reply and store
  the same session, up to that deadline.
\<close>

theorem lock_gates_roster_only:
  "(\<forall>t. lockAt s = Some t \<and> t \<noteq> 0 \<and> t \<le> now \<longrightarrow>
       buttonHandler now s u n action payload = (SignupsLocked, s)
     \<and> buttonHandler1 now s u n action payload = (SignupsLocked, s)
     \<and> selectMenuHandler now s u n roleKey v = (SignupsLocked, s))
   \<and> swapHandler (s\<lparr>lockAt := l\<rparr>) a b f
        = (fst (swapHandler s a b f), (snd (swapHandler s a b f))\<lparr>lockAt := l\<rparr>)
   \<and> previewHandler now (s\<lparr>lockAt := l\<rparr>) gw at r
        = (fst (previewHandler now s gw at r), (snd (previewHandler now s gw at r))\<lparr>lockAt := l\<rparr>)
   \<and> rollHandler (s\<lparr>lockAt := l\<rparr>) gw at r
        = (fst (rollHandler s gw at r), (snd (rollHandler s gw at r))\<lparr>lockAt := l\<rparr>)"
proof -
  have "buttonHandler now s u n action payload = (SignupsLocked, s)
     \<and> buttonHandler1 now s u n action payload = (SignupsLocked, s)
     \<and> selectMenuHandler now s u n roleKey v = (SignupsLocked, s)"
    if "lockAt s = Some t \<and> t \<noteq> 0 \<and> t \<le> now" for t
  proof -
    from that have "isLocked now s" by (auto simp: isLocked_iff)
    then show ?thesis by (simp add: buttonHandler_def buttonHandler1_def selectMenuHandler_def)
  qed
  with swapHandler_lockAt [of l s a b f] previewHandler_lockAt [of now l s gw at r]
    rollHandler_lockAt [of l s gw at r]
  show ?thesis by blast
qed

theorem lock_gates_roster_only_witness:
  "lockAt demoSession = Some 100 \<and> (100 :: int) \<noteq> 0 \<and> (100 :: int) \<le> 200
   \<and> buttonHandler 200 demoSession ''u1'' ''Ann'' ''toggle'' ''HEAL'' = (SignupsLocked, demoSession)
   \<and> buttonHandler 200 demoSession ''u1'' ''Ann'' ''leave'' [] = (SignupsLocked, demoSession)
   \<and> selectMenuHandler 200 demoSession ''u1'' ''Ann'' ''TANK'' ''WARRIOR'' = (SignupsLocked, demoSession)
   \<and> fst (swapHandler (swapSession\<lparr>lockAt := None\<rparr>) ''c'' ''g'' False)
       = fst (swapHandler swapSession ''c'' ''g'' False)
   \<and> lastDraft (snd (swapHandler (swapSession\<lparr>lockAt := None\<rparr>) ''c'' ''g'' False))
       = lastDraft (snd (swapHandler swapSession ''c'' ''g'' False))"
proof -
  have l: "lockAt demoSession = Some 100" by (simp add: demoSession_def)
  from lock_gates_roster_only [of demoSession 200 "''u1''" "''Ann''" "''toggle''" "''HEAL''" "''TANK''" "''WARRIOR''"]
    lock_gates_roster_only [of demoSession 200 "''u1''" "''Ann''" "''leave''" "[]" "''TANK''" "''WARRIOR''"]
    lock_gates_roster_only [of swapSession 200 "''u1''" "''Ann''" "''leave''" "[]" "''TANK''" "''WARRIOR''"
                               None "''c''" "''g''" False]
    l
  show ?thesis by simp
qed

theorem zero_deadline_counterexample:
  "lockAt zeroLockSession = Some 0 \<and> (0 :: int) \<le> 5
   \<and> fst (buttonHandler 5 zeroLockSession ''u1'' ''Ann'' ''toggle'' ''HEAL'')
        = UpdatedRoles [''TANK'', ''DPS'', ''HEAL'']
   \<and> map_option roles (map_of (signups (snd (buttonHandler 5 zeroLockSession ''u1'' ''Ann'' ''toggle'' ''HEAL''))) ''u1'')
        = Some [''TANK'', ''DPS'', ''HEAL'']
   \<and> map_option roles (map_of (signups zeroLockSession) ''u1'') = Some [''TANK'', ''DPS'']"
proof -
  have 1: "lockAt zeroLockSession = Some 0" by (simp add: zeroLockSession_def)
  have 2: "fst (buttonHandler 5 zeroLockSession ''u1'' ''Ann'' ''toggle'' ''HEAL'')
        = UpdatedRoles [''TANK'', ''DPS'', ''HEAL'']" by code_simp
  have 3: "map_option roles (map_of (signups (snd (buttonHandler 5 zeroLockSession ''u1'' ''Ann'' ''toggle'' ''HEAL''))) ''u1'')
        = Some [''TANK'', ''DPS'', ''HEAL'']" by code_simp
  have 4: "map_option roles (map_of (signups zeroLockSession) ''u1'') = Some [''TANK'', ''DPS'']"
    by code_simp
  from 1 2 3 4 show ?thesis by simp
qed

text \<open>
  Claim C6. When both players are located in the current draft, \<^verbatim>\<open>force\<close> is false and one
  of the two destination checks fails (the player who would move into a group slot does not
  have the role of that slot; the bench takes anyone), the swap command replies with the
  role mismatch and stores the session it was given: the draft after the call is the draft
  before the call.
\<close>

theorem swap_rejection_leaves_draft:
  assumes "lastDraft s = Some d"
    and "findPlayerInDraft d aId = Some aLoc" "findPlayerInDraft d bId = Some bLoc"
    and "(\<exists>gi sl p. bLoc = InGroup gi sl \<and> readRef d aLoc = Some p \<and> slotRole sl \<notin> set (player_roles p))
       \<or> (\<exists>gi sl p. aLoc = InGroup gi sl \<and> readRef d bLoc = Some p \<and> slotRole sl \<notin> set (player_roles p))"
  shows "swapHandler s aId bId False = (RoleMismatch, s)
       \<and> lastDraft (snd (swapHandler s aId bId False)) = Some d"
proof -
  from assms(4) have "\<not> roleOkAt (readRef d aLoc) bLoc \<or> \<not> roleOkAt (readRef d bLoc) aLoc"
    by (auto simp: roleOkAt_def roleAllowedForSlot_Some)
  with assms(1,2,3) show ?thesis by (simp add: swapHandler_def Let_def)
qed

theorem swap_rejection_leaves_draft_witness:
  "lastDraft swapSession = Some demoDraft
   \<and> findPlayerInDraft demoDraft ''g'' = Some (InBench 1)
   \<and> findPlayerInDraft demoDraft ''b'' = Some (InGroup 0 Heal)
   \<and> readRef demoDraft (InBench 1) = Some (mkPlayer ''g'' [''DPS''])
   \<and> slotRole Heal \<notin> set (player_roles (mkPlayer ''g'' [''DPS'']))
   \<and> swapHandler swapSession ''g'' ''b'' False = (RoleMismatch, swapSession)
   \<and> fst (swapHandler swapSession ''g'' ''b'' True) = Swapped"
proof -
  have 1: "lastDraft swapSession = Some demoDraft" by (simp add: swapSession_def)
  have 2: "findPlayerInDraft demoDraft ''g'' = Some (InBench 1)" by code_simp
  have 3: "findPlayerInDraft demoDraft ''b'' = Some (InGroup 0 Heal)" by code_simp
  have 4: "readRef demoDraft (InBench 1) = Some (mkPlayer ''g'' [''DPS''])" by code_simp
  have 5: "slotRole Heal \<notin> set (player_roles (mkPlayer ''g'' [''DPS'']))"
    by (simp add: slotRole_def mkPlayer_def)
  have 6: "(\<exists>gi sl p. InGroup 0 Heal = InGroup gi sl \<and> readRef demoDraft (InBench 1) = Some p
                \<and> slotRole sl \<notin> set (player_roles p))
       \<or> (\<exists>gi sl p. InBench 1 = InGroup gi sl \<and> readRef demoDraft (InGroup 0 Heal) = Some p
                \<and> slotRole sl \<notin> set (player_roles p))"
    using 4 5 by simp
  have 7: "fst (swapHandler swapSession ''g'' ''b'' True) = Swapped" by code_simp
  from swap_rejection_leaves_draft [OF 1 2 3 6] 1 2 3 4 5 7 show ?thesis by simp
qed

subsection \<open>Reading and writing slots\<close>

lemma getSlot_setSlot: "getSlot (setSlot g sl v) sl' = (if sl' = sl then v else getSlot g sl')"
  by (cases sl; cases sl') simp_all

lemma setSlot_setSlot: "setSlot (setSlot g sl v) sl w = setSlot g sl w"
  by (cases sl) simp_all

lemma setSlot_commute:
  "sl \<noteq> sl' \<Longrightarrow> setSlot (setSlot g sl v) sl' w = setSlot (setSlot g sl' w) sl v"
  by (cases sl; cases sl') simp_all

lemma setSlot_getSlot: "setSlot g sl (getSlot g sl) = g"
  by (cases sl) simp_all

definition validLoc :: "draft \<Rightarrow> location \<Rightarrow> bool" where
  "validLoc d loc =
     (case loc of InBench bi \<Rightarrow> bi < length (draft_bench d)
                | InGroup gi sl \<Rightarrow> gi < length (draft_groups d))"

lemma validLoc_writeRef [simp]: "validLoc (writeRef d l v) l' = validLoc d l'"
  by (cases l; cases l') (simp_all add: validLoc_def writeRef_def)

lemma readRef_Some_valid: "readRef d l = Some p \<Longrightarrow> validLoc d l"
  by (cases l) (simp_all add: readRef_def validLoc_def split: if_splits)

lemma readRef_writeRef_same: "validLoc d l \<Longrightarrow> readRef (writeRef d l v) l = v"
  by (cases l) (simp_all add: readRef_def writeRef_def validLoc_def getSlot_setSlot)

lemma nth_update_any: "(xs[i := x]) ! j = (if i = j \<and> i < length xs then x else xs ! j)"
  by (cases "i < length xs") (simp_all add: nth_list_update not_less list_update_beyond)

lemma readRef_writeRef_other: "l' \<noteq> l \<Longrightarrow> readRef (writeRef d l v) l' = readRef d l'"
  by (cases l; cases l')
     (auto simp: readRef_def writeRef_def getSlot_setSlot nth_update_any)

lemma update_group_twice:
  "gs[gi := setSlot (gs[gi := setSlot (gs ! gi) sl v] ! gi) sl' w]
     = gs[gi := setSlot (setSlot (gs ! gi) sl v) sl' w]"
  by (cases "gi < length gs") (simp_all add: not_less list_update_beyond)

lemma writeRef_writeRef: "writeRef (writeRef d l v) l w = writeRef d l w"
  by (cases l) (simp_all add: writeRef_def update_group_twice setSlot_setSlot)

lemma writeRef_commute:
  "l \<noteq> l' \<Longrightarrow> writeRef (writeRef d l v) l' w = writeRef (writeRef d l' w) l v"
proof (cases l; cases l')
  fix gi sl gi' sl'
  assume ne: "l \<noteq> l'" and l: "l = InGroup gi sl" and l': "l' = InGroup gi' sl'"
  show ?thesis
  proof (cases "gi = gi'")
    case True
    with ne l l' have s: "sl \<noteq> sl'" by simp
    from \<open>gi = gi'\<close> l l' s show ?thesis
      by (simp add: writeRef_def update_group_twice setSlot_commute)
  next
    case False
    with l l' show ?thesis by (simp add: writeRef_def list_update_swap nth_update_any)
  qed
next
  fix gi sl bi
  assume "l = InGroup gi sl" "l' = InBench bi"
  then show ?thesis by (simp add: writeRef_def)
next
  fix gi sl bi
  assume "l = InBench bi" "l' = InGroup gi sl"
  then show ?thesis by (simp add: writeRef_def)
next
  fix bi bi'
  assume "l \<noteq> l'" "l = InBench bi" "l' = InBench bi'"
  then show ?thesis by (simp add: writeRef_def list_update_swap)
qed

lemma writeRef_readRef: "v = readRef d l \<Longrightarrow> validLoc d l \<Longrightarrow> writeRef d l v = d"
  by (cases l) (simp_all add: writeRef_def readRef_def validLoc_def setSlot_getSlot)

subsection \<open>Refreshing the classes\<close>

lemma player_id_attach [simp]: "player_id (attach su p) = player_id p"
  by (simp add: attach_def split: option.splits)

lemma player_roles_attach [simp]: "player_roles (attach su p) = player_roles p"
  by (simp add: attach_def split: option.splits)

lemma attach_attach [simp]: "attach su (attach su p) = attach su p"
  by (simp add: attach_def split: option.splits)

lemma getSlot_hydrateGroup: "getSlot (hydrateGroup su g) sl = map_option (attach su) (getSlot g sl)"
  by (cases sl) (simp_all add: hydrateGroup_def)

lemma hydrateGroup_setSlot:
  "hydrateGroup su (setSlot g sl v) = setSlot (hydrateGroup su g) sl (map_option (attach su) v)"
  by (cases sl) (simp_all add: hydrateGroup_def)

lemma hydrateGroup_idem: "hydrateGroup su (hydrateGroup su g) = hydrateGroup su g"
  by (simp add: hydrateGroup_def option.map_comp comp_def)

lemma validLoc_hydrate [simp]: "validLoc (hydrateDraftClassesFromSignups su d) l = validLoc d l"
  by (cases l) (simp_all add: validLoc_def hydrateDraftClassesFromSignups_def)

lemma readRef_hydrate:
  "readRef (hydrateDraftClassesFromSignups su d) l = map_option (attach su) (readRef d l)"
  by (cases l) (simp_all add: readRef_def hydrateDraftClassesFromSignups_def getSlot_hydrateGroup)

lemma hydrate_writeRef:
  "hydrateDraftClassesFromSignups su (writeRef d l v)
     = writeRef (hydrateDraftClassesFromSignups su d) l (map_option (attach su) v)"
proof (cases l)
  case (InGroup gi sl)
  show ?thesis
  proof (cases "gi < length (draft_groups d)")
    case True
    with InGroup show ?thesis
      by (simp add: writeRef_def hydrateDraftClassesFromSignups_def map_update hydrateGroup_setSlot)
  next
    case False
    with InGroup show ?thesis
      by (simp add: writeRef_def hydrateDraftClassesFromSignups_def not_less list_update_beyond)
  qed
next
  case (InBench bi)
  then show ?thesis
    by (simp add: writeRef_def hydrateDraftClassesFromSignups_def map_update)
qed

lemma hydrate_idem:
  "hydrateDraftClassesFromSignups su (hydrateDraftClassesFromSignups su d)
     = hydrateDraftClassesFromSignups su d"
  by (simp add: hydrateDraftClassesFromSignups_def hydrateGroup_idem option.map_comp comp_def)

lemma roleOkAt_attach: "roleOkAt (map_option (attach su) p) l = roleOkAt p l"
proof (cases l)
  case (InGroup gi sl)
  then show ?thesis by (cases p) (simp_all add: roleOkAt_def roleAllowedForSlot_Some)
next
  case (InBench bi)
  then show ?thesis by (simp add: roleOkAt_def)
qed

lemma name_attach [simp]: "name (attach su p) = name p"
  by (simp add: attach_def split: option.splits)

subsection \<open>Locating a player\<close>

lemma findSlot_Some:
  "findSlot g u ss = Some sl \<Longrightarrow> \<exists>p. getSlot g sl = Some p \<and> player_id p = u"
  by (induction ss) (auto split: option.splits if_splits)

lemma findSlot_None:
  "findSlot g u ss = None \<Longrightarrow> sl \<in> set ss \<Longrightarrow> getSlot g sl = Some p \<Longrightarrow> player_id p \<noteq> u"
  by (induction ss) (auto split: option.splits if_splits)

lemma slot_in_slotNames: "sl \<in> set slotNames"
  by (cases sl) (simp_all add: slotNames_def)

lemma findInGroups_Some:
  "findInGroups gs gi0 u = Some l \<Longrightarrow>
   \<exists>gi sl p. l = InGroup (gi0 + gi) sl \<and> gi < length gs \<and> getSlot (gs ! gi) sl = Some p
             \<and> player_id p = u"
proof (induction gs arbitrary: gi0)
  case Nil
  then show ?case by simp
next
  case (Cons g gs)
  show ?case
  proof (cases "findSlot g u slotNames")
    case None
    with Cons.prems have "findInGroups gs (Suc gi0) u = Some l" by simp
    from Cons.IH [OF this] obtain gi sl p where
      "l = InGroup (Suc gi0 + gi) sl" "gi < length gs" "getSlot (gs ! gi) sl = Some p" "player_id p = u"
      by blast
    then have "l = InGroup (gi0 + Suc gi) sl \<and> Suc gi < length (g # gs)
               \<and> getSlot ((g # gs) ! Suc gi) sl = Some p \<and> player_id p = u" by simp
    then show ?thesis by blast
  next
    case (Some sl)
    with Cons.prems have l: "l = InGroup gi0 sl" by simp
    from findSlot_Some [OF Some] obtain p where "getSlot g sl = Some p" "player_id p = u" by blast
    with l have "l = InGroup (gi0 + 0) sl \<and> 0 < length (g # gs)
               \<and> getSlot ((g # gs) ! 0) sl = Some p \<and> player_id p = u" by simp
    then show ?thesis by blast
  qed
qed

lemma findInGroups_None:
  "findInGroups gs gi0 u = None \<Longrightarrow> gi < length gs \<Longrightarrow> getSlot (gs ! gi) sl = Some p \<Longrightarrow>
   player_id p \<noteq> u"
proof (induction gs arbitrary: gi0 gi)
  case Nil
  then show ?case by simp
next
  case (Cons g gs)
  from Cons.prems(1) have n: "findSlot g u slotNames = None" and r: "findInGroups gs (Suc gi0) u = None"
    by (auto split: option.splits)
  show ?case
  proof (cases gi)
    case 0
    with Cons.prems(3) findSlot_None [OF n slot_in_slotNames, of sl p] show ?thesis by simp
  next
    case (Suc k)
    with Cons.prems(2,3) Cons.IH [OF r, of k] show ?thesis by simp
  qed
qed

lemma findInBench_Some:
  "findInBench xs bi0 u = Some l \<Longrightarrow>
   \<exists>bi p. l = InBench (bi0 + bi) \<and> bi < length xs \<and> xs ! bi = Some p \<and> player_id p = u"
proof (induction xs arbitrary: bi0)
  case Nil
  then show ?case by simp
next
  case (Cons x xs)
  show ?case
  proof (cases "\<exists>p. x = Some p \<and> player_id p = u")
    case True
    then obtain p where p: "x = Some p" "player_id p = u" by blast
    with Cons.prems have "l = InBench (bi0 + 0) \<and> 0 < length (x # xs)
                          \<and> (x # xs) ! 0 = Some p \<and> player_id p = u" by simp
    then show ?thesis by blast
  next
    case False
    with Cons.prems have "findInBench xs (Suc bi0) u = Some l"
      by (auto split: option.splits if_splits)
    from Cons.IH [OF this] obtain bi p where
      "l = InBench (Suc bi0 + bi)" "bi < length xs" "xs ! bi = Some p" "player_id p = u" by blast
    then have "l = InBench (bi0 + Suc bi) \<and> Suc bi < length (x # xs)
               \<and> (x # xs) ! Suc bi = Some p \<and> player_id p = u" by simp
    then show ?thesis by blast
  qed
qed

lemma findInBench_None:
  "findInBench xs bi0 u = None \<Longrightarrow> bi < length xs \<Longrightarrow> xs ! bi = Some p \<Longrightarrow> player_id p \<noteq> u"
proof (induction xs arbitrary: bi0 bi)
  case Nil
  then show ?case by simp
next
  case (Cons x xs)
  show ?case
  proof (cases bi)
    case 0
    with Cons.prems show ?thesis by (auto split: option.splits if_splits)
  next
    case (Suc k)
    from Cons.prems(1) have "findInBench xs (Suc bi0) u = None"
      by (auto split: option.splits if_splits)
    from Cons.IH [OF this, of k] Cons.prems(2,3) Suc show ?thesis by simp
  qed
qed

lemma findPlayerInDraft_Some:
  assumes "findPlayerInDraft d u = Some l"
  shows "\<exists>p. readRef d l = Some p \<and> player_id p = u"
proof (cases "findInGroups (draft_groups d) 0 u")
  case None
  with assms have "findInBench (draft_bench d) 0 u = Some l" by (simp add: findPlayerInDraft_def)
  from findInBench_Some [OF this] show ?thesis by (auto simp: readRef_def)
next
  case (Some l')
  with assms have "l' = l" by (simp add: findPlayerInDraft_def)
  with findInGroups_Some [OF Some] show ?thesis by (auto simp: readRef_def)
qed

lemma findPlayerInDraft_exists:
  assumes "readRef d l = Some p" "player_id p = u"
  shows "findPlayerInDraft d u \<noteq> None"
proof
  assume n: "findPlayerInDraft d u = None"
  then have g: "findInGroups (draft_groups d) 0 u = None"
    and b: "findInBench (draft_bench d) 0 u = None"
    by (auto simp: findPlayerInDraft_def split: option.splits)
  show False
  proof (cases l)
    case (InGroup gi sl)
    with assms(1) have "gi < length (draft_groups d)" "getSlot (draft_groups d ! gi) sl = Some p"
      by (auto simp: readRef_def split: if_splits)
    from findInGroups_None [OF g this] assms(2) show False by simp
  next
    case (InBench bi)
    with assms(1) have "bi < length (draft_bench d)" "draft_bench d ! bi = Some p"
      by (auto simp: readRef_def split: if_splits)
    from findInBench_None [OF b this] assms(2) show False by simp
  qed
qed

subsection \<open>No id in two places\<close>

lemma nth_occupants: "i < length xs \<Longrightarrow> xs ! i = Some p \<Longrightarrow> p \<in> set (occupants xs)"
proof (induction xs arbitrary: i rule: occupants.induct)
  case 1
  then show ?case by simp
next
  case (2 xs)
  then show ?case by (cases i) auto
next
  case (3 q xs)
  then show ?case by (cases i) auto
qed

lemma distinct_occupants_index:
  assumes "distinct (map f (occupants xs))" "i < length xs" "j < length xs"
    "xs ! i = Some p" "xs ! j = Some q" "f p = f q"
  shows "i = j"
  using assms
proof (induction xs arbitrary: i j rule: occupants.induct)
  case 1
  then show ?case by simp
next
  case (2 xs)
  from "2.prems"(4) obtain i' where i: "i = Suc i'" by (cases i) auto
  from "2.prems"(5) obtain j' where j: "j = Suc j'" by (cases j) auto
  from "2.IH" [of i' j'] "2.prems" i j show ?case by simp
next
  case (3 r xs)
  show ?case
  proof (cases i)
    case 0
    show ?thesis
    proof (cases j)
      case (Suc j')
      with "3.prems"(3,5) have qin: "q \<in> set (occupants xs)"
        using nth_occupants [of j' xs q] by simp
      from 0 "3.prems"(4,6) have "f r = f q" by simp
      with qin have "f r \<in> f ` set (occupants xs)" by (simp add: image_iff) blast
      with "3.prems"(1) have False by simp
      then show ?thesis ..
    qed (simp add: 0)
  next
    case (Suc i')
    show ?thesis
    proof (cases j)
      case 0
      from Suc "3.prems"(2,4) have pin: "p \<in> set (occupants xs)"
        using nth_occupants [of i' xs p] by simp
      from 0 "3.prems"(5,6) have "f r = f p" by simp
      with pin have "f r \<in> f ` set (occupants xs)" by (simp add: image_iff) blast
      with "3.prems"(1) have False by simp
      then show ?thesis ..
    next
      case j: (Suc j')
      from "3.IH" [of i' j'] "3.prems" Suc j show ?thesis by simp
    qed
  qed
qed

fun slotIndex :: "slot \<Rightarrow> nat" where
  "slotIndex Tank = 0"
| "slotIndex Heal = 1"
| "slotIndex Dps1 = 2"
| "slotIndex Dps2 = 3"
| "slotIndex Dps3 = 4"

definition locIndex :: "draft \<Rightarrow> location \<Rightarrow> nat" where
  "locIndex d l =
     (case l of InGroup gi sl \<Rightarrow> 5 * gi + slotIndex sl
              | InBench bi \<Rightarrow> 5 * length (draft_groups d) + bi)"

lemma slotIndex_less: "slotIndex sl < 5"
  by (cases sl) simp_all

lemma slotIndex_inj: "slotIndex sl = slotIndex sl' \<Longrightarrow> sl = sl'"
  by (cases sl; cases sl') simp_all

lemma groupSlots_nth: "groupSlots g ! slotIndex sl = getSlot g sl"
  by (cases sl) (simp_all add: groupSlots_def)

lemma length_concat_groupSlots: "length (concat (map groupSlots gs)) = 5 * length gs"
  by (induction gs) (simp_all add: groupSlots_def)

lemma nth_concat_groupSlots:
  "gi < length gs \<Longrightarrow> k < 5 \<Longrightarrow> concat (map groupSlots gs) ! (5 * gi + k) = groupSlots (gs ! gi) ! k"
proof (induction gs arbitrary: gi)
  case Nil
  then show ?case by simp
next
  case (Cons g gs)
  have l: "length (groupSlots g) = 5" by (simp add: groupSlots_def)
  show ?case
  proof (cases gi)
    case 0
    with Cons.prems l show ?thesis by (simp add: nth_append)
  next
    case (Suc gi')
    with Cons.prems Cons.IH [of gi'] l show ?thesis by (simp add: nth_append)
  qed
qed

lemma readRef_draftSlots:
  assumes "readRef d l = Some p"
  shows "locIndex d l < length (draftSlots d) \<and> draftSlots d ! locIndex d l = Some p"
proof (cases l)
  case (InGroup gi sl)
  with assms have gi: "gi < length (draft_groups d)" and g: "getSlot (draft_groups d ! gi) sl = Some p"
    by (auto simp: readRef_def split: if_splits)
  have "5 * gi + slotIndex sl < 5 * length (draft_groups d)"
    using gi slotIndex_less [of sl] by simp
  then show ?thesis
    using InGroup gi g nth_concat_groupSlots [OF gi slotIndex_less, of sl]
    by (simp add: locIndex_def draftSlots_def nth_append length_concat_groupSlots groupSlots_nth)
next
  case (InBench bi)
  with assms have "bi < length (draft_bench d)" "draft_bench d ! bi = Some p"
    by (auto simp: readRef_def split: if_splits)
  with InBench show ?thesis
    by (simp add: locIndex_def draftSlots_def nth_append length_concat_groupSlots)
qed

lemma locIndex_inj:
  assumes "readRef d l = Some p" "readRef d l' = Some q" "locIndex d l = locIndex d l'"
  shows "l = l'"
proof (cases l; cases l')
  fix gi sl gi' sl'
  assume l: "l = InGroup gi sl" and l': "l' = InGroup gi' sl'"
  with assms(3) have e: "5 * gi + slotIndex sl = 5 * gi' + slotIndex sl'" by (simp add: locIndex_def)
  have "gi = gi'" using e slotIndex_less [of sl] slotIndex_less [of sl'] by arith
  with e have "slotIndex sl = slotIndex sl'" by simp
  with \<open>gi = gi'\<close> l l' slotIndex_inj show ?thesis by simp
next
  fix gi sl bi
  assume l: "l = InGroup gi sl" and l': "l' = InBench bi"
  with assms(1) have "gi < length (draft_groups d)" by (auto simp: readRef_def split: if_splits)
  with assms(3) l l' slotIndex_less [of sl] show ?thesis by (simp add: locIndex_def)
next
  fix gi sl bi
  assume l: "l = InBench bi" and l': "l' = InGroup gi sl"
  with assms(2) have "gi < length (draft_groups d)" by (auto simp: readRef_def split: if_splits)
  with assms(3) l l' slotIndex_less [of sl] show ?thesis by (simp add: locIndex_def)
next
  fix bi bi'
  assume "l = InBench bi" "l' = InBench bi'"
  with assms(3) show ?thesis by (simp add: locIndex_def)
qed

lemma distinct_ids_unique_location:
  assumes "distinct (draftIds d)" "readRef d l = Some p" "readRef d l' = Some q"
    "player_id p = player_id q"
  shows "l = l'"
proof -
  from readRef_draftSlots [OF assms(2)] readRef_draftSlots [OF assms(3)]
  have "locIndex d l = locIndex d l'"
    using distinct_occupants_index [of player_id "draftSlots d" "locIndex d l" "locIndex d l'" p q]
      assms(1,4) by (simp add: draftIds_def)
  with assms(2,3) show ?thesis by (rule locIndex_inj)
qed

subsection \<open>Swapping twice\<close>

text \<open>The exchange of the contents of two places, as the two assignments of the swap
  command perform it.\<close>

definition exchange :: "draft \<Rightarrow> location \<Rightarrow> location \<Rightarrow> draft" where
  "exchange d la lb = writeRef (writeRef d la (readRef d lb)) lb (readRef d la)"

lemma find_unique_location:
  assumes "\<And>l l' p q. readRef d l = Some p \<Longrightarrow> readRef d l' = Some q \<Longrightarrow>
             player_id p = player_id q \<Longrightarrow> l = l'"
    and "readRef d l = Some p" "player_id p = u"
  shows "findPlayerInDraft d u = Some l"
proof -
  from findPlayerInDraft_exists [OF assms(2,3)] obtain l' where f: "findPlayerInDraft d u = Some l'"
    by auto
  from findPlayerInDraft_Some [OF f] obtain q where q: "readRef d l' = Some q" "player_id q = u"
    by blast
  from assms(1) [OF assms(2) q(1)] assms(3) q(2) have "l = l'" by simp
  with f show ?thesis by simp
qed

lemma readRef_exchange:
  assumes "validLoc d la" "validLoc d lb"
  shows "readRef (exchange d la lb) l
           = readRef d (if l = la then lb else if l = lb then la else l)"
proof (cases "l = lb")
  case True
  with assms show ?thesis by (simp add: exchange_def readRef_writeRef_same)
next
  case False
  then show ?thesis
    using assms by (simp add: exchange_def readRef_writeRef_other readRef_writeRef_same)
qed

lemma exchange_back:
  assumes "validLoc d la" "validLoc d lb"
  shows "exchange (exchange d la lb) lb la = d"
proof -
  let ?e = "exchange d la lb"
  have ra: "readRef ?e la = readRef d lb" and rb: "readRef ?e lb = readRef d la"
    using readRef_exchange [OF assms] by simp_all
  have "exchange ?e lb la = writeRef (writeRef ?e lb (readRef d lb)) la (readRef d la)"
    by (simp add: exchange_def [of ?e] ra rb)
  also have "writeRef ?e lb (readRef d lb) = writeRef (writeRef d la (readRef d lb)) lb (readRef d lb)"
    by (simp add: exchange_def writeRef_writeRef)
  also have "\<dots> = writeRef d la (readRef d lb)"
  proof (cases "la = lb")
    case True
    then show ?thesis by (simp add: writeRef_writeRef)
  next
    case False
    then have "writeRef (writeRef d la (readRef d lb)) lb (readRef d lb)
                 = writeRef (writeRef d lb (readRef d lb)) la (readRef d lb)"
      by (rule writeRef_commute)
    with assms(2) show ?thesis by (simp add: writeRef_readRef)
  qed
  also have "writeRef (writeRef d la (readRef d lb)) la (readRef d la) = d"
    using assms(1) by (simp add: writeRef_writeRef writeRef_readRef)
  finally show ?thesis .
qed

lemma hydrate_exchange:
  "hydrateDraftClassesFromSignups su (exchange d la lb)
     = exchange (hydrateDraftClassesFromSignups su d) la lb"
  by (simp add: exchange_def hydrate_writeRef readRef_hydrate)

lemma swapHandler_accepted:
  assumes "lastDraft s = Some d"
    and "findPlayerInDraft d aId = Some aLoc" "findPlayerInDraft d bId = Some bLoc"
    and "force \<or> (roleOkAt (readRef d aLoc) bLoc \<and> roleOkAt (readRef d bLoc) aLoc)"
  shows "swapHandler s aId bId force
           = (Swapped, s\<lparr>lastDraft :=
                Some (hydrateDraftClassesFromSignups (signups s) (exchange d aLoc bLoc))\<rparr>)"
  using assms by (auto simp: swapHandler_def Let_def exchange_def)

lemma swap_twice_general:
  assumes dr: "lastDraft s = Some d" and di: "distinct (draftIds d)"
    and fa: "findPlayerInDraft d aId = Some aLoc" and fb: "findPlayerInDraft d bId = Some bLoc"
    and ok: "force \<or> (roleOkAt (readRef d aLoc) bLoc \<and> roleOkAt (readRef d bLoc) aLoc
                     \<and> roleOkAt (readRef d aLoc) aLoc \<and> roleOkAt (readRef d bLoc) bLoc)"
  shows "swapHandler (snd (swapHandler s aId bId force)) aId bId force
           = (Swapped, s\<lparr>lastDraft := Some (hydrateDraftClassesFromSignups (signups s) d)\<rparr>)"
proof -
  let ?H = "hydrateDraftClassesFromSignups (signups s)"
  let ?d1 = "?H (exchange d aLoc bLoc)"
  let ?s1 = "s\<lparr>lastDraft := Some ?d1\<rparr>"
  from findPlayerInDraft_Some [OF fa] obtain pa where pa: "readRef d aLoc = Some pa" "player_id pa = aId"
    by blast
  from findPlayerInDraft_Some [OF fb] obtain pb where pb: "readRef d bLoc = Some pb" "player_id pb = bId"
    by blast
  have va: "validLoc d aLoc" and vb: "validLoc d bLoc"
    using pa(1) pb(1) by (simp_all add: readRef_Some_valid)
  have first: "swapHandler s aId bId force = (Swapped, ?s1)"
    using swapHandler_accepted [OF dr fa fb] ok by blast
  have r1: "readRef ?d1 l = map_option (attach (signups s))
              (readRef d (if l = aLoc then bLoc else if l = bLoc then aLoc else l))" for l
    by (simp only: readRef_hydrate readRef_exchange [OF va vb])
  have uniq: "l = l'" if "readRef ?d1 l = Some p" "readRef ?d1 l' = Some q" "player_id p = player_id q"
    for l l' p q
  proof -
    let ?t = "\<lambda>l. if l = aLoc then bLoc else if l = bLoc then aLoc else l"
    from that(1) r1 [of l] obtain p0 where p0: "readRef d (?t l) = Some p0" "p = attach (signups s) p0"
      by (cases "readRef d (?t l)") auto
    from that(2) r1 [of l'] obtain q0 where q0: "readRef d (?t l') = Some q0" "q = attach (signups s) q0"
      by (cases "readRef d (?t l')") auto
    from that(3) p0(2) q0(2) have "player_id p0 = player_id q0" by simp
    from distinct_ids_unique_location [OF di p0(1) q0(1) this] have "?t l = ?t l'" .
    then show "l = l'" by (auto split: if_splits)
  qed
  have rb1: "readRef ?d1 bLoc = Some (attach (signups s) pa)"
    using r1 [of bLoc] pa(1) by (simp split: if_splits)
  have ra1: "readRef ?d1 aLoc = Some (attach (signups s) pb)"
    using r1 [of aLoc] pb(1) by simp
  have fa1: "findPlayerInDraft ?d1 aId = Some bLoc"
  proof (rule find_unique_location [where p = "attach (signups s) pa"])
    show "\<And>l l' p q. readRef ?d1 l = Some p \<Longrightarrow> readRef ?d1 l' = Some q \<Longrightarrow>
             player_id p = player_id q \<Longrightarrow> l = l'" by (rule uniq)
    show "readRef ?d1 bLoc = Some (attach (signups s) pa)" by (rule rb1)
    show "player_id (attach (signups s) pa) = aId" by (simp add: pa(2))
  qed
  have fb1: "findPlayerInDraft ?d1 bId = Some aLoc"
  proof (rule find_unique_location [where p = "attach (signups s) pb"])
    show "\<And>l l' p q. readRef ?d1 l = Some p \<Longrightarrow> readRef ?d1 l' = Some q \<Longrightarrow>
             player_id p = player_id q \<Longrightarrow> l = l'" by (rule uniq)
    show "readRef ?d1 aLoc = Some (attach (signups s) pb)" by (rule ra1)
    show "player_id (attach (signups s) pb) = bId" by (simp add: pb(2))
  qed
  have ok1: "force \<or> (roleOkAt (readRef ?d1 bLoc) aLoc \<and> roleOkAt (readRef ?d1 aLoc) bLoc)"
    using ok roleOkAt_attach [of "signups s" "Some pa"] roleOkAt_attach [of "signups s" "Some pb"]
    by (auto simp: rb1 ra1 pa(1) pb(1))
  have dr1: "lastDraft ?s1 = Some ?d1" by simp
  have second: "swapHandler ?s1 aId bId force
           = (Swapped, ?s1\<lparr>lastDraft := Some (hydrateDraftClassesFromSignups (signups ?s1)
                                                  (exchange ?d1 bLoc aLoc))\<rparr>)"
    by (rule swapHandler_accepted [OF dr1 fa1 fb1 ok1])
  have "?H (exchange ?d1 bLoc aLoc) = ?H (?H (exchange (exchange d aLoc bLoc) bLoc aLoc))"
    by (simp only: hydrate_exchange)
  also have "\<dots> = ?H d" by (simp only: exchange_back [OF va vb] hydrate_idem)
  finally have restored: "?H (exchange ?d1 bLoc aLoc) = ?H d" .
  show ?thesis using first second restored by simp
qed

text \<open>
  Claim C7, as amended. Let the current draft \<open>d\<close> hold no participant id twice, and let
  \<open>a\<close> and \<open>b\<close> both be located in it. If \<^verbatim>\<open>force\<close> is true, or each of the two players
  is eligible both for the slot of the other and for its own slot (the bench takes anyone),
  then both swaps are accepted and the draft after the second one is \<open>d\<close> with the classes
  of every player reference refreshed from the signups: every slot and bench position holds
  the player with the id, name and roles it held in \<open>d\<close>, and the stored session is the
  original one whenever the refresh changes nothing in \<open>d\<close>.
\<close>

theorem swap_twice_restores_up_to_classes:
  assumes "lastDraft s = Some d" and "distinct (draftIds d)"
    and "findPlayerInDraft d aId = Some aLoc" and "findPlayerInDraft d bId = Some bLoc"
    and "force \<or> (roleOkAt (readRef d aLoc) bLoc \<and> roleOkAt (readRef d bLoc) aLoc
                 \<and> roleOkAt (readRef d aLoc) aLoc \<and> roleOkAt (readRef d bLoc) bLoc)"
  shows "swapHandler (snd (swapHandler s aId bId force)) aId bId force
           = (Swapped, s\<lparr>lastDraft := Some (hydrateDraftClassesFromSignups (signups s) d)\<rparr>)
       \<and> (\<forall>l. map_option (\<lambda>p. (player_id p, name p, player_roles p))
                  (readRef (hydrateDraftClassesFromSignups (signups s) d) l)
               = map_option (\<lambda>p. (player_id p, name p, player_roles p)) (readRef d l))
       \<and> (hydrateDraftClassesFromSignups (signups s) d = d \<longrightarrow>
            snd (swapHandler (snd (swapHandler s aId bId force)) aId bId force) = s)"
proof -
  have 1: "swapHandler (snd (swapHandler s aId bId force)) aId bId force
           = (Swapped, s\<lparr>lastDraft := Some (hydrateDraftClassesFromSignups (signups s) d)\<rparr>)"
    by (rule swap_twice_general [OF assms])
  have 2: "map_option (\<lambda>p. (player_id p, name p, player_roles p))
                  (readRef (hydrateDraftClassesFromSignups (signups s) d) l)
               = map_option (\<lambda>p. (player_id p, name p, player_roles p)) (readRef d l)" for l
    by (cases "readRef d l") (simp_all add: readRef_hydrate)
  have 3: "snd (swapHandler (snd (swapHandler s aId bId force)) aId bId force) = s"
    if "hydrateDraftClassesFromSignups (signups s) d = d"
    using 1 that assms(1) by simp
  from 1 2 3 show ?thesis by blast
qed

theorem swap_twice_restores_up_to_classes_witness:
  "lastDraft swapSession = Some demoDraft \<and> distinct (draftIds demoDraft)
   \<and> findPlayerInDraft demoDraft ''c'' = Some (InGroup 0 Dps1)
   \<and> findPlayerInDraft demoDraft ''g'' = Some (InBench 1)
   \<and> roleOkAt (readRef demoDraft (InGroup 0 Dps1)) (InBench 1)
   \<and> roleOkAt (readRef demoDraft (InBench 1)) (InGroup 0 Dps1)
   \<and> roleOkAt (readRef demoDraft (InGroup 0 Dps1)) (InGroup 0 Dps1)
   \<and> roleOkAt (readRef demoDraft (InBench 1)) (InBench 1)
   \<and> swapHandler (snd (swapHandler swapSession ''c'' ''g'' False)) ''c'' ''g'' False
        = (Swapped, swapSession\<lparr>lastDraft :=
             Some (hydrateDraftClassesFromSignups (signups swapSession) demoDraft)\<rparr>)"
proof -
  have 1: "lastDraft swapSession = Some demoDraft" by (simp add: swapSession_def)
  have 2: "distinct (draftIds demoDraft)" by code_simp
  have 3: "findPlayerInDraft demoDraft ''c'' = Some (InGroup 0 Dps1)" by code_simp
  have 4: "findPlayerInDraft demoDraft ''g'' = Some (InBench 1)" by code_simp
  have 5: "roleOkAt (readRef demoDraft (InGroup 0 Dps1)) (InBench 1)"
    "roleOkAt (readRef demoDraft (InBench 1)) (InGroup 0 Dps1)"
    "roleOkAt (readRef demoDraft (InGroup 0 Dps1)) (InGroup 0 Dps1)"
    "roleOkAt (readRef demoDraft (InBench 1)) (InBench 1)"
    by code_simp+
  have 6: "False \<or> (roleOkAt (readRef demoDraft (InGroup 0 Dps1)) (InBench 1)
     \<and> roleOkAt (readRef demoDraft (InBench 1)) (InGroup 0 Dps1)
     \<and> roleOkAt (readRef demoDraft (InGroup 0 Dps1)) (InGroup 0 Dps1)
     \<and> roleOkAt (readRef demoDraft (InBench 1)) (InBench 1))" using 5 by simp
  from swap_twice_restores_up_to_classes [OF 1 2 3 4 6] 1 2 3 4 5 show ?thesis by simp
qed

theorem swap_twice_counterexample:
  "findPlayerInDraft demoDraft ''x'' = Some (InGroup 0 Tank)
   \<and> findPlayerInDraft demoDraft ''a'' = Some (InBench 0)
   \<and> fst (swapHandler swapSession ''x'' ''a'' False) = Swapped
   \<and> fst (swapHandler (snd (swapHandler swapSession ''x'' ''a'' False)) ''x'' ''a'' False) = RoleMismatch
   \<and> map_option draftIds (lastDraft (snd (swapHandler (snd (swapHandler swapSession ''x'' ''a'' False)) ''x'' ''a'' False)))
       = Some [''a'', ''b'', ''c'', ''d'', ''e'', ''x'', ''g'']
   \<and> map_option draftIds (lastDraft swapSession) = Some [''x'', ''b'', ''c'', ''d'', ''e'', ''a'', ''g'']
   \<and> fst (swapHandler (snd (swapHandler swapSession ''x'' ''a'' True)) ''x'' ''a'' True) = Swapped
   \<and> map_option (\<lambda>d. map_option player_classes (readRef d (InGroup 0 Tank)))
         (lastDraft (snd (swapHandler (snd (swapHandler swapSession ''x'' ''a'' True)) ''x'' ''a'' True)))
       = Some (Some [(''TANK'', None), (''HEAL'', None), (''DPS'', Some ''MAGE'')])
   \<and> map_option player_classes (readRef demoDraft (InGroup 0 Tank)) = Some []"
proof -
  have 1: "findPlayerInDraft demoDraft ''x'' = Some (InGroup 0 Tank)" by code_simp
  have 2: "findPlayerInDraft demoDraft ''a'' = Some (InBench 0)" by code_simp
  have 3: "fst (swapHandler swapSession ''x'' ''a'' False) = Swapped" by code_simp
  have 4: "fst (swapHandler (snd (swapHandler swapSession ''x'' ''a'' False)) ''x'' ''a'' False) = RoleMismatch"
    by code_simp
  have 5: "map_option draftIds (lastDraft (snd (swapHandler (snd (swapHandler swapSession ''x'' ''a'' False)) ''x'' ''a'' False)))
       = Some [''a'', ''b'', ''c'', ''d'', ''e'', ''x'', ''g'']" by code_simp
  have 6: "map_option draftIds (lastDraft swapSession) = Some [''x'', ''b'', ''c'', ''d'', ''e'', ''a'', ''g'']"
    by code_simp
  have 7: "fst (swapHandler (snd (swapHandler swapSession ''x'' ''a'' True)) ''x'' ''a'' True) = Swapped"
    by code_simp
  have 8: "map_option (\<lambda>d. map_option player_classes (readRef d (InGroup 0 Tank)))
         (lastDraft (snd (swapHandler (snd (swapHandler swapSession ''x'' ''a'' True)) ''x'' ''a'' True)))
       = Some (Some [(''TANK'', None), (''HEAL'', None), (''DPS'', Some ''MAGE'')])" by code_simp
  have 9: "map_option player_classes (readRef demoDraft (InGroup 0 Tank)) = Some []" by code_simp
  from 1 2 3 4 5 6 7 8 9 show ?thesis by simp
qed

end
